theory Spec2Isabelle
  imports Complex_Main "HOL-Library.Monad_Syntax"
begin

unbundle bit_operations_syntax

section \<open>The LCI coder of LCIcoder.cpp\<close>

text \<open>
  A shallow embedding of the encoder and the decoder of LCIcoder.cpp.

  \<^item> A C character array is a \<open>char list\<close> holding the whole allocation, terminator
    included. Every read and every write is checked against its length; an access outside
    the allocation is undefined behaviour in C and is \<open>None\<close> here.
  \<^item> C \<open>int\<close> and \<open>long long\<close> values are \<open>int\<close>; the conversions from \<open>double\<close> are
    \<open>None\<close> outside the range of the target type (undefined behaviour in C). Shifts and
    masks are the bit operations of \<open>int\<close>, which are those of two's complement.
    Array indices and octet positions, which never go negative, are \<open>nat\<close>.
  \<^item> A \<open>double\<close> is a \<open>real\<close>. The codec scales by powers of two, rounds to an integer,
    takes \<open>exp2\<close> of an integer and divides integers below \<open>2 ^ 53\<close> by powers of two, all
    of which binary64 does exactly; \<open>log2\<close> is the real logarithm.
  \<^item> The global variables are the record \<open>globals\<close>, passed in and returned. Its field
    \<open>printed\<close> is the sequence of \<open>ERROR:\<close> and \<open>WARNING:\<close> lines written by the encoders
    and the decoder, in order. The text printed under \<open>verboseflag\<close>, \<open>traceflag\<close> and
    \<open>debugflag\<close>, the listing of \<open>showColocatedBSSIDs\<close> and the character-level
    messages of \<open>hextoint\<close> and \<open>inttohex\<close> are not recorded; the values those two
    functions return are.
\<close>

subsection \<open>Constants\<close>

abbreviation (input) LCI_VERSION_1 :: int where "LCI_VERSION_1 \<equiv> 1"
abbreviation (input) MAX_LCI_UNCERTAINTY :: int where "MAX_LCI_UNCERTAINTY \<equiv> 34"
abbreviation (input) MAX_Z_UNCERTAINTY :: int where "MAX_Z_UNCERTAINTY \<equiv> 24"
abbreviation (input) MEASURE_TOKEN :: int where "MEASURE_TOKEN \<equiv> 1"
abbreviation (input) MEASURE_REQUEST_MODE :: int where "MEASURE_REQUEST_MODE \<equiv> 0"
abbreviation (input) LCI_TYPE :: int where "LCI_TYPE \<equiv> 8"
abbreviation (input) LCI_CODE :: int where "LCI_CODE \<equiv> 0"
abbreviation (input) Z_CODE :: int where "Z_CODE \<equiv> 4"
abbreviation (input) USAGE_CODE :: int where "USAGE_CODE \<equiv> 6"
abbreviation (input) COLOCATED_BSSID :: int where "COLOCATED_BSSID \<equiv> 7"
abbreviation (input) NUL :: char where "NUL \<equiv> CHR 0x00"

subsection \<open>Printed lines and global variables\<close>

datatype diag =
    UncertaintyNonPositive real
  | UncertaintyTooLarge real
  | UncertaintyTooSmall real int
  | NoRetransmission
  | RetentionExpires
  | ExpirationNonZero
  | ExpectedToMove
  | RetentionWithoutExpiration
  | ExpirationWithoutRetention
  | InvalidBSSIDFormat string
  | MaxBSSIDIndicatorNonZero int
  | MaxBSSIDIndicatorMismatch int int
  | InvalidBSSID string
  | LatitudeUncertaintyCode int
  | LongitudeUncertaintyCode int
  | AltitudeUncertaintyCode int
  | LCIVersion int
  | BadMeasurementType int int int
  | BadLengthCode int int nat nat
  | LCILength int
  | LCIBits nat
  | ZLength int
  | ZUncertaintyCode int
  | UsageLength int
  | RetentionLength int
  | NoRetentionLength int
  | BSSIDLength int
  | UnrecognizedSubelement int int nat

text \<open>
  \<open>BSSIDS\<close> holds the entries \<open>0 ..< bssid_index\<close> of the C array of that name, so
  \<open>bssid_index\<close> is its length; the array itself has \<open>max_bssids + 1\<close> slots.
\<close>

record globals =
  smallestflag :: bool
  wantLCIflag :: bool
  wantZflag :: bool
  wantUsageflag :: bool
  wantColocatedflag :: bool
  latitude :: real
  longitude :: real
  altitude :: real
  latitude_uncertainty :: real
  longitude_uncertainty :: real
  altitude_uncertainty :: real
  Altitude_Type :: int
  datum :: int
  RegLoc_Agreement :: int
  RegLoc_DSE :: int
  Dependent_STA :: int
  LCI_version :: int
  expected_to_move :: int
  sta_floor :: real
  sta_height_above_floor :: real
  sta_height_above_floor_uncertainty :: real
  retransmission_allowed :: int
  retention_expires_present :: int
  STA_location_policy :: int
  expiration :: int
  BSSIDS :: "string list"
  max_bssids :: nat
  printed :: "diag list"

abbreviation bssid_index :: "globals \<Rightarrow> nat" where
  "bssid_index g \<equiv> length (BSSIDS g)"

definition say :: "diag \<Rightarrow> globals \<Rightarrow> globals" where
  "say d g = g\<lparr>printed := printed g @ [d]\<rparr>"

text \<open>The initial values of the global variables.\<close>

definition initial :: globals where
  "initial = \<lparr>smallestflag = False, wantLCIflag = True, wantZflag = True,
     wantUsageflag = True, wantColocatedflag = True,
     latitude = 0, longitude = 0, altitude = 0,
     latitude_uncertainty = 0, longitude_uncertainty = 0, altitude_uncertainty = 0,
     Altitude_Type = 1, datum = 1, RegLoc_Agreement = 0, RegLoc_DSE = 0,
     Dependent_STA = 0, LCI_version = LCI_VERSION_1,
     expected_to_move = 0, sta_floor = 0, sta_height_above_floor = 0,
     sta_height_above_floor_uncertainty = 0,
     retransmission_allowed = 1, retention_expires_present = 0,
     STA_location_policy = 0, expiration = 0,
     BSSIDS = [], max_bssids = 10, printed = []\<rparr>"

subsection \<open>Character arrays\<close>

type_synonym buffer = "char list"

definition rd :: "buffer \<Rightarrow> nat \<Rightarrow> char option" where
  "rd str i = (if i < length str then Some (str ! i) else None)"

definition wr :: "buffer \<Rightarrow> nat \<Rightarrow> char \<Rightarrow> buffer option" where
  "wr str i c = (if i < length str then Some (str[i := c]) else None)"

definition strlen :: "buffer \<Rightarrow> nat option" where
  "strlen str = (if NUL \<in> set str then Some (length (takeWhile (\<lambda>c. c \<noteq> NUL) str)) else None)"

text \<open>The array of a string literal or of a command-line argument.\<close>

definition c_str :: "string \<Rightarrow> buffer" where
  "c_str s = s @ [NUL]"

text \<open>A \<open>for (k = a; k < a + n; k++)\<close> loop over a state, stopping at undefined behaviour.\<close>

fun for_loop :: "nat \<Rightarrow> nat \<Rightarrow> (nat \<Rightarrow> 's \<Rightarrow> 's option) \<Rightarrow> 's \<Rightarrow> 's option" where
  "for_loop k 0 body s = Some s"
| "for_loop k (Suc n) body s = Option.bind (body k s) (for_loop (Suc k) n body)"

subsection \<open>Utility functions\<close>

definition ishexdigit :: "char \<Rightarrow> bool" where
  "ishexdigit c = (let n = (of_char c :: nat) in
     (48 \<le> n \<and> n \<le> 57) \<or> (65 \<le> n \<and> n \<le> 70) \<or> (97 \<le> n \<and> n \<le> 102))"

definition hextoint :: "char \<Rightarrow> int" where
  "hextoint c = (let n = (of_char c :: int) in
     if 48 \<le> n \<and> n \<le> 57 then n AND 0x0F
     else if 65 \<le> n \<and> n \<le> 70 then (n AND 0x0F) + 9
     else if 97 \<le> n \<and> n \<le> 102 then (n AND 0x0F) + 9
     else 0)"

definition inttohex :: "int \<Rightarrow> char" where
  "inttohex k = (if 0 \<le> k \<and> k \<le> 15 then ''0123456789abcdef'' ! nat k else NUL)"

definition getoctet :: "buffer \<Rightarrow> nat \<Rightarrow> int option" where
  "getoctet str nbyt = do {
     hi \<leftarrow> rd str (nbyt * 2);
     lo \<leftarrow> rd str (nbyt * 2 + 1);
     Some (push_bit 4 (hextoint hi) OR hextoint lo)
   }"

definition getnumber :: "buffer \<Rightarrow> nat \<Rightarrow> nat \<Rightarrow> int option" where
  "getnumber str nbyt ndig =
     for_loop nbyt ndig
       (\<lambda>k res. do { oct \<leftarrow> getoctet str k; Some (push_bit 8 res OR oct) }) 0"

definition getbit :: "buffer \<Rightarrow> nat \<Rightarrow> bool option" where
  "getbit str indx = do {
     let nbyt = drop_bit 3 indx;
     let lft = indx - push_bit 3 nbyt;
     chr \<leftarrow> getoctet str nbyt;
     Some ((chr AND push_bit lft 1) \<noteq> 0)
   }"

definition getbits :: "buffer \<Rightarrow> nat \<Rightarrow> nat \<Rightarrow> int option" where
  "getbits str bstart nlen = do {
     (res, bt) \<leftarrow> for_loop bstart nlen
        (\<lambda>k (res, bt). do {
            b \<leftarrow> getbit str k;
            Some (if b then res OR bt else res, push_bit 1 bt) })
        (0, 1 :: int);
     Some res
   }"

definition putoctet :: "buffer \<Rightarrow> nat \<Rightarrow> int \<Rightarrow> buffer option" where
  "putoctet str nbyt oct = do {
     str \<leftarrow> wr str (nbyt * 2) (inttohex (drop_bit 4 oct));
     wr str (nbyt * 2 + 1) (inttohex (oct AND 0x0F))
   }"

definition putnumber :: "buffer \<Rightarrow> nat \<Rightarrow> nat \<Rightarrow> int \<Rightarrow> buffer option" where
  "putnumber str nbyt ndig num =
     for_loop nbyt ndig
       (\<lambda>k str. putoctet str k (drop_bit ((nbyt + ndig - k - 1) * 8) num AND 0xFF)) str"

definition putbit :: "buffer \<Rightarrow> nat \<Rightarrow> bool \<Rightarrow> buffer option" where
  "putbit str indx bt = do {
     let nbyt = drop_bit 3 indx;
     let lft = indx - push_bit 3 nbyt;
     oct \<leftarrow> getoctet str nbyt;
     let mask = push_bit lft (1 :: int);
     putoctet str nbyt (if bt then oct OR mask else oct AND NOT mask)
   }"

definition putbits :: "buffer \<Rightarrow> nat \<Rightarrow> nat \<Rightarrow> int \<Rightarrow> (buffer \<times> nat) option" where
  "putbits str bstart nlen val = do {
     str \<leftarrow> for_loop bstart nlen
        (\<lambda>k str. putbit str k ((val AND push_bit (k - bstart) 1) \<noteq> 0)) str;
     Some (str, bstart + nlen)
   }"

text \<open>\<open>isValidBSSID\<close>, on the characters of a C string.\<close>

definition isValidBSSID :: "string \<Rightarrow> bool" where
  "isValidBSSID str =
     (if length str = 6 * 3 - 1 then
        (\<forall>k \<in> set [0 ..< 6].
           (k > 0 \<longrightarrow> str ! (3 * k - 1) \<in> {CHR '':'', CHR ''-'', CHR ''_''})
           \<and> ishexdigit (str ! (3 * k)) \<and> ishexdigit (str ! (3 * k + 1)))
      else if length str = 6 * 2 then
        (\<forall>k \<in> set [0 ..< 6]. ishexdigit (str ! (2 * k)) \<and> ishexdigit (str ! (2 * k + 1)))
      else False)"

text \<open>
  \<open>strndup\<close>: a fresh string of at most \<open>nlen\<close> characters read from position \<open>pos\<close> on,
  ending at a terminator.
\<close>

fun strndup :: "buffer \<Rightarrow> nat \<Rightarrow> nat \<Rightarrow> string option" where
  "strndup str pos 0 = Some []"
| "strndup str pos (Suc nlen) = do {
     c \<leftarrow> rd str pos;
     if c = NUL then Some []
     else do { cs \<leftarrow> strndup str (Suc pos) nlen; Some (c # cs) }
   }"

definition propagate_sign :: "int \<Rightarrow> nat \<Rightarrow> int" where
  "propagate_sign res nlen =
     (if res AND push_bit (nlen - 1) 1 \<noteq> 0 then res OR NOT (push_bit nlen 1 - 1) else res)"

subsection \<open>Conversions between double and integer\<close>

text \<open>\<open>round\<close> and \<open>roundl\<close> round halves away from zero; a cast truncates.\<close>

definition c_round :: "real \<Rightarrow> int" where
  "c_round x = (if 0 \<le> x then \<lfloor>x + 1 / 2\<rfloor> else - \<lfloor>- x + 1 / 2\<rfloor>)"

definition c_trunc :: "real \<Rightarrow> int" where
  "c_trunc x = (if 0 \<le> x then \<lfloor>x\<rfloor> else \<lceil>x\<rceil>)"

definition to_llong :: "int \<Rightarrow> int option" where
  "to_llong i = (if - (2 ^ 63) \<le> i \<and> i < 2 ^ 63 then Some i else None)"

definition to_int :: "int \<Rightarrow> int option" where
  "to_int i = (if - (2 ^ 31) \<le> i \<and> i < 2 ^ 31 then Some i else None)"

text \<open>Integer division and remainder of C, truncating towards zero.\<close>

definition c_div :: "int \<Rightarrow> int \<Rightarrow> int" where
  "c_div a b = sgn a * sgn b * (\<bar>a\<bar> div \<bar>b\<bar>)"

definition c_mod :: "int \<Rightarrow> int \<Rightarrow> int" where
  "c_mod a b = a - b * c_div a b"

subsection \<open>Uncertainty codes\<close>

text \<open>The library function \<open>log2\<close>, which has no code of its own here.\<close>

definition log2 :: "real \<Rightarrow> real" where
  "log2 x = log 2 x"

declare log2_def [code del]

definition decodebinarydot :: "int \<Rightarrow> int \<Rightarrow> real" where
  "decodebinarydot n m = 2 powi (m - n)"

text \<open>
  \<open>encodebinarydot\<close> is taken over the reals: the logarithm, the subtraction of \<open>eps\<close> and
  the ceiling are exact here, where the program computes them in binary64. The two agree
  when \<open>val\<close> is a power of two in the range of the codes, \<open>2 powi (m - c)\<close> with \<open>c\<close> from 1 to
  34: the logarithm is then the integer \<open>m - c\<close> in both, and the ceiling of \<open>m - c - eps\<close> is
  \<open>m - c\<close> in both. They can differ when \<open>log2 val\<close> lies within a rounding error of an
  integer plus \<open>eps\<close>, so the results below that use this function are stated for these
  powers of two only.
\<close>

definition encodebinarydot :: "real \<Rightarrow> int \<Rightarrow> globals \<Rightarrow> int \<times> globals" where
  "encodebinarydot val m g =
     (let eps = 1 / 1000000 in
      if val \<le> 0 then (0, say (UncertaintyNonPositive val) g)
      else
        let res = m - \<lceil>log2 val - eps\<rceil> in
        if res \<le> 0 then (1, say (UncertaintyTooLarge val) g)
        else if res > MAX_LCI_UNCERTAINTY then
          (MAX_LCI_UNCERTAINTY, say (UncertaintyTooSmall val res) g)
        else (res, g))"

definition checksettings :: "globals \<Rightarrow> globals" where
  "checksettings g0 =
     (let g = (if retransmission_allowed g0 = 0 then say NoRetransmission g0 else g0);
          g = (if retention_expires_present g \<noteq> 0 then say RetentionExpires g else g);
          g = (if expiration g \<noteq> 0 then say ExpirationNonZero g else g);
          g = (if expected_to_move g \<noteq> 0 then say ExpectedToMove g else g)
      in g)"

subsection \<open>Encoding\<close>

definition encodeLCIfield :: "buffer \<Rightarrow> nat \<Rightarrow> globals \<Rightarrow> (buffer \<times> nat \<times> globals) option" where
  "encodeLCIfield str nbyt g = do {
     str \<leftarrow> putoctet str nbyt LCI_CODE;
     str \<leftarrow> putoctet str (nbyt + 1) 16;
     let nbyt = nbyt + 2;
     let indx = push_bit 3 nbyt;
     Latitude \<leftarrow> to_llong (c_round (latitude g * 2 ^ 25));
     Longitude \<leftarrow> to_llong (c_round (longitude g * 2 ^ 25));
     Altitude \<leftarrow> to_int (c_round (altitude g * 2 ^ 8));
     let (Latitude_Uncertainty, g) =
       (if latitude_uncertainty g > 0 then encodebinarydot (latitude_uncertainty g) 8 g
        else if \<not> smallestflag g then (0, g)
        else (MAX_LCI_UNCERTAINTY, g));
     let (Longitude_Uncertainty, g) =
       (if longitude_uncertainty g > 0 then encodebinarydot (longitude_uncertainty g) 8 g
        else if \<not> smallestflag g then (0, g)
        else (MAX_LCI_UNCERTAINTY, g));
     let (Altitude_Uncertainty, g) =
       (if altitude_uncertainty g > 0 then encodebinarydot (altitude_uncertainty g) 21 g
        else if \<not> smallestflag g then (0, g)
        else (MAX_LCI_UNCERTAINTY, g));
     (str, indx) \<leftarrow> putbits str indx 6 Latitude_Uncertainty;
     (str, indx) \<leftarrow> putbits str indx 34 Latitude;
     (str, indx) \<leftarrow> putbits str indx 6 Longitude_Uncertainty;
     (str, indx) \<leftarrow> putbits str indx 34 Longitude;
     (str, indx) \<leftarrow> putbits str indx 4 (Altitude_Type g);
     (str, indx) \<leftarrow> putbits str indx 6 Altitude_Uncertainty;
     (str, indx) \<leftarrow> putbits str indx 30 Altitude;
     (str, indx) \<leftarrow> putbits str indx 3 (datum g);
     (str, indx) \<leftarrow> putbits str indx 1 (RegLoc_Agreement g);
     (str, indx) \<leftarrow> putbits str indx 1 (RegLoc_DSE g);
     (str, indx) \<leftarrow> putbits str indx 1 (Dependent_STA g);
     (str, indx) \<leftarrow> putbits str indx 2 (LCI_version g);
     let nbyt = drop_bit 3 indx;
     str \<leftarrow> wr str (nbyt * 2) NUL;
     Some (str, nbyt, g)
   }"

definition encodeZfield :: "buffer \<Rightarrow> nat \<Rightarrow> globals \<Rightarrow> (buffer \<times> nat \<times> globals) option" where
  "encodeZfield str nbyt g = do {
     str \<leftarrow> putoctet str nbyt Z_CODE;
     str \<leftarrow> putoctet str (nbyt + 1) 6;
     let nbyt = nbyt + 2;
     floor16 \<leftarrow> to_int (c_trunc (sta_floor g * 16));
     let STA_Floor_Info = (expected_to_move g AND 0x03) OR push_bit 2 floor16;
     STA_Height_Above_Floor \<leftarrow> to_int (c_trunc (sta_height_above_floor g * 4096));
     let (STA_Height_Above_Floor_Uncertainty, g) =
       (if sta_height_above_floor_uncertainty g > 0
        then encodebinarydot (sta_height_above_floor_uncertainty g) 11 g
        else if \<not> smallestflag g then (0, g)
        else (MAX_Z_UNCERTAINTY, g));
     let STA_Height_Above_Floor_Uncertainty =
       (if STA_Height_Above_Floor_Uncertainty > MAX_Z_UNCERTAINTY then MAX_Z_UNCERTAINTY
        else STA_Height_Above_Floor_Uncertainty);
     str \<leftarrow> putnumber str nbyt 2 STA_Floor_Info;
     let nbyt = nbyt + 2;
     str \<leftarrow> putnumber str nbyt 3 STA_Height_Above_Floor;
     let nbyt = nbyt + 3;
     str \<leftarrow> putnumber str nbyt 1 STA_Height_Above_Floor_Uncertainty;
     let nbyt = nbyt + 1;
     str \<leftarrow> wr str (nbyt * 2) NUL;
     Some (str, nbyt, g)
   }"

definition encodeUsageField :: "buffer \<Rightarrow> nat \<Rightarrow> globals \<Rightarrow> (buffer \<times> nat \<times> globals) option" where
  "encodeUsageField str nbyt g = do {
     let nlen = (if retention_expires_present g \<noteq> 0 then 3 else 1 :: int);
     let (nlen, g) =
       (if retention_expires_present g \<noteq> 0 then
          (if expiration g = 0
           then (1, (say RetentionWithoutExpiration g)\<lparr>retention_expires_present := 0\<rparr>)
           else (nlen, g))
        else
          (if expiration g \<noteq> 0
           then (3, (say ExpirationWithoutRetention g)\<lparr>retention_expires_present := 1\<rparr>)
           else (nlen, g)));
     str \<leftarrow> putoctet str nbyt USAGE_CODE;
     str \<leftarrow> putoctet str (nbyt + 1) nlen;
     let nbyt = nbyt + 2;
     let parameters = retransmission_allowed g OR push_bit 1 (retention_expires_present g)
                        OR push_bit 2 (STA_location_policy g);
     str \<leftarrow> putoctet str nbyt parameters;
     let nbyt = nbyt + 1;
     (str, nbyt) \<leftarrow>
       (if retention_expires_present g \<noteq> 0
        then do { str \<leftarrow> putnumber str nbyt 2 (expiration g); Some (str, nbyt + 2) }
        else Some (str, nbyt));
     str \<leftarrow> wr str (nbyt * 2) NUL;
     Some (str, nbyt, g)
   }"

text \<open>
  \<open>placeBSSID\<close> copies the two hexadecimal digits of each of the six octets; the state of
  the two loops is the array and the octet position.
\<close>

definition placeBSSID :: "buffer \<Rightarrow> nat \<Rightarrow> string \<Rightarrow> globals \<Rightarrow> (buffer \<times> nat \<times> globals) option" where
  "placeBSSID str nbyt bssid g =
     (if length bssid = 6 * 3 - 1 then do {
        (str, nbyt) \<leftarrow> for_loop 0 6
          (\<lambda>k (str, nbyt). do {
             str \<leftarrow> wr str (nbyt * 2) (bssid ! (k * 3));
             str \<leftarrow> wr str (nbyt * 2 + 1) (bssid ! (k * 3 + 1));
             Some (str, nbyt + 1) }) (str, nbyt);
        Some (str, nbyt, g) }
      else if length bssid = 6 * 2 then do {
        (str, nbyt) \<leftarrow> for_loop 0 6
          (\<lambda>k (str, nbyt). do {
             str \<leftarrow> wr str (nbyt * 2) (bssid ! (k * 2));
             str \<leftarrow> wr str (nbyt * 2 + 1) (bssid ! (k * 2 + 1));
             Some (str, nbyt + 1) }) (str, nbyt);
        Some (str, nbyt, g) }
      else Some (str, nbyt, say (InvalidBSSIDFormat bssid) g))"

definition encodeColocatedBSSID ::
    "buffer \<Rightarrow> nat \<Rightarrow> nat \<Rightarrow> globals \<Rightarrow> (buffer \<times> nat \<times> globals) option" where
  "encodeColocatedBSSID str nbyt nbssids g =
     (if bssid_index g = 0 then Some (str, nbyt, g)
      else do {
        let maxBSSIDindicator = int (bssid_index g);
        str \<leftarrow> putoctet str nbyt COLOCATED_BSSID;
        str \<leftarrow> putoctet str (nbyt + 1) (int nbssids * 6 + 1);
        str \<leftarrow> putoctet str (nbyt + 2) maxBSSIDindicator;
        (str, nbyt, g) \<leftarrow> for_loop 0 (bssid_index g)
          (\<lambda>k (str, nbyt, g). placeBSSID str nbyt (BSSIDS g ! k) g) (str, nbyt + 3, g);
        str \<leftarrow> wr str (nbyt * 2) NUL;
        Some (str, nbyt, g)
      })"

text \<open>
  \<open>encodeLCIstring\<close> returns the array it has allocated: \<open>nlen\<close> characters \<open>0\<close> and a
  terminator, written over by the encoders of the subelements.
\<close>

definition encodeLCIstring :: "globals \<Rightarrow> (buffer \<times> globals) option" where
  "encodeLCIstring g = do {
     let nbyt = 3 + (2 + 16) + (2 + 6) + (2 + 3) + (2 + 6 * bssid_index g + 1);
     let nlen = nbyt * 2;
     let str = replicate nlen CHR ''0'' @ [NUL];
     let nbyt = 0;
     let g = checksettings g;
     str \<leftarrow> putoctet str nbyt MEASURE_TOKEN;
     str \<leftarrow> putoctet str (nbyt + 1) MEASURE_REQUEST_MODE;
     str \<leftarrow> putoctet str (nbyt + 2) LCI_TYPE;
     let nbyt = nbyt + 3;
     let needLCIflag = (latitude g \<noteq> 0 \<or> longitude g \<noteq> 0 \<or> altitude g \<noteq> 0);
     (str, nbyt, g) \<leftarrow>
       (if wantLCIflag g then encodeLCIfield str nbyt g else Some (str, nbyt, g));
     let needZflag = (sta_floor g \<noteq> 0 \<or> sta_height_above_floor g \<noteq> 0
                       \<or> sta_height_above_floor_uncertainty g \<noteq> 0);
     (str, nbyt, g) \<leftarrow>
       (if wantZflag g then encodeZfield str nbyt g else Some (str, nbyt, g));
     let needBSSIDflag = (bssid_index g > 0);
     (str, nbyt, g) \<leftarrow>
       (if wantColocatedflag g \<and> needBSSIDflag
        then encodeColocatedBSSID str nbyt (bssid_index g) g else Some (str, nbyt, g));
     let needUsageFlag = (needLCIflag \<or> needZflag \<or> needBSSIDflag);
     (str, nbyt, g) \<leftarrow>
       (if wantUsageflag g \<and> needUsageFlag
        then encodeUsageField str nbyt g else Some (str, nbyt, g));
     Some (str, g)
   }"

text \<open>The C string held in an array: the characters before the first terminator.\<close>

definition string_of :: "buffer \<Rightarrow> string" where
  "string_of str = takeWhile (\<lambda>c. c \<noteq> NUL) str"

text \<open>The string that \<open>main\<close> prints after \<open>lci=\<close>.\<close>

definition encoded :: "globals \<Rightarrow> string option" where
  "encoded g = map_option (\<lambda>(str, g'). string_of str) (encodeLCIstring g)"


subsection \<open>Decoding\<close>

definition decodeColocatedBSSID :: "buffer \<Rightarrow> nat \<Rightarrow> int \<Rightarrow> globals \<Rightarrow> (nat \<times> globals) option" where
  "decodeColocatedBSSID str nbyt nlen g = do {
     maxBSSIDindicator \<leftarrow> getoctet str nbyt;
     let nbyt = nbyt + 1;
     let g =
       (if maxBSSIDindicator \<noteq> 0 then
          (let g = say (MaxBSSIDIndicatorNonZero maxBSSIDindicator) g in
           if maxBSSIDindicator \<noteq> c_div (nlen - 1) 6
           then say (MaxBSSIDIndicatorMismatch maxBSSIDindicator (c_div (nlen - 1) 6)) g
           else g)
        else g);
     let nBSSID = nat (c_div (nlen - 1) 6);
     (nbyt, bssids, g) \<leftarrow> for_loop 0 nBSSID
       (\<lambda>k (nbyt, bssids, g). do {
          bssid \<leftarrow> strndup str (nbyt * 2) (6 * 2);
          bssids \<leftarrow> (if k < max_bssids g + 1 then Some (bssids @ [bssid]) else None);
          let nbyt = nbyt + 6;
          let g = (if \<not> isValidBSSID bssid then say (InvalidBSSID bssid) g else g);
          Some (nbyt, bssids, g) })
       (nbyt, [], g);
     Some (nbyt, g\<lparr>BSSIDS := bssids\<rparr>)
   }"

definition decodeLCIfield :: "buffer \<Rightarrow> nat \<Rightarrow> globals \<Rightarrow> (nat \<times> globals) option" where
  "decodeLCIfield str indx g = do {
     Latitude_Uncertainty \<leftarrow> getbits str indx 6;
     let indx = indx + 6;
     let (Latitude_Uncertainty, g) =
       (if Latitude_Uncertainty > MAX_LCI_UNCERTAINTY
        then (MAX_LCI_UNCERTAINTY, say (LatitudeUncertaintyCode Latitude_Uncertainty) g)
        else (Latitude_Uncertainty, g));
     let g = g\<lparr>latitude_uncertainty :=
               (if Latitude_Uncertainty = 0 then 0 else decodebinarydot Latitude_Uncertainty 8)\<rparr>;
     Latitude \<leftarrow> getbits str indx 34;
     let indx = indx + 34;
     let Latitude = propagate_sign Latitude 34;
     let g = g\<lparr>latitude := real_of_int Latitude / 2 ^ 25\<rparr>;
     Longitude_Uncertainty \<leftarrow> getbits str indx 6;
     let indx = indx + 6;
     let (Longitude_Uncertainty, g) =
       (if Longitude_Uncertainty > MAX_LCI_UNCERTAINTY
        then (MAX_LCI_UNCERTAINTY, say (LongitudeUncertaintyCode Longitude_Uncertainty) g)
        else (Longitude_Uncertainty, g));
     let g = g\<lparr>longitude_uncertainty :=
               (if Longitude_Uncertainty = 0 then 0 else decodebinarydot Longitude_Uncertainty 8)\<rparr>;
     Longitude \<leftarrow> getbits str indx 34;
     let indx = indx + 34;
     let Longitude = propagate_sign Longitude 34;
     let g = g\<lparr>longitude := real_of_int Longitude / 2 ^ 25\<rparr>;
     Altitude_Type' \<leftarrow> getbits str indx 4;
     let g = g\<lparr>Altitude_Type := Altitude_Type'\<rparr>;
     let indx = indx + 4;
     Altitude_Uncertainty \<leftarrow> getbits str indx 6;
     let indx = indx + 6;
     let (Altitude_Uncertainty, g) =
       (if Altitude_Uncertainty > MAX_LCI_UNCERTAINTY
        then (MAX_LCI_UNCERTAINTY, say (AltitudeUncertaintyCode Altitude_Uncertainty) g)
        else (Altitude_Uncertainty, g));
     let g = g\<lparr>altitude_uncertainty :=
               (if Altitude_Uncertainty = 0 then 0 else decodebinarydot Altitude_Uncertainty 21)\<rparr>;
     Altitude \<leftarrow> getbits str indx 30;
     let indx = indx + 30;
     let g = g\<lparr>altitude := real_of_int Altitude / 256\<rparr>;
     datum' \<leftarrow> getbits str indx 3;
     let g = g\<lparr>datum := datum'\<rparr>;
     let indx = indx + 3;
     RegLoc_Agreement' \<leftarrow> getbits str indx 1;
     let g = g\<lparr>RegLoc_Agreement := RegLoc_Agreement'\<rparr>;
     let indx = indx + 1;
     RegLoc_DSE' \<leftarrow> getbits str indx 1;
     let g = g\<lparr>RegLoc_DSE := RegLoc_DSE'\<rparr>;
     let indx = indx + 1;
     Dependent_STA' \<leftarrow> getbits str indx 1;
     let g = g\<lparr>Dependent_STA := Dependent_STA'\<rparr>;
     let indx = indx + 1;
     LCI_version' \<leftarrow> getbits str indx 2;
     let g = g\<lparr>LCI_version := LCI_version'\<rparr>;
     let indx = indx + 2;
     let g = (if LCI_version g \<noteq> LCI_VERSION_1 then say (LCIVersion (LCI_version g)) g else g);
     Some (indx, g)
   }"

text \<open>
  The cases of the \<open>switch\<close> of \<open>decodeLCIstring\<close>, after the ID and length octets have
  been read and the length checked: the octet position after the subelement and the
  global variables. The LCI field decoder is given the array from the field on.
\<close>

definition decodeLCIcase :: "buffer \<Rightarrow> nat \<Rightarrow> int \<Rightarrow> globals \<Rightarrow> (nat \<times> globals) option" where
  "decodeLCIcase str nbyt nlen g =
     (if nlen = 0 then Some (nbyt, g)
      else if nlen \<noteq> 16 then Some (nbyt + nat nlen, say (LCILength nlen) g)
      else do {
        (indx, g) \<leftarrow> decodeLCIfield (drop (nbyt * 2) str) 0 g;
        let g = (if indx \<noteq> 128 then say (LCIBits indx) g else g);
        Some (nbyt + drop_bit 3 indx, g)
      })"

definition decodeZcase :: "buffer \<Rightarrow> nat \<Rightarrow> int \<Rightarrow> globals \<Rightarrow> (nat \<times> globals) option" where
  "decodeZcase str nbyt nlen g = do {
     let g = (if nlen \<noteq> 6 then say (ZLength nlen) g else g);
     if nlen \<noteq> 6 \<and> nlen \<noteq> 5 then Some (nbyt + nat nlen, g)
     else do {
       STA_Floor_Info \<leftarrow> getnumber str nbyt 2;
       let nbyt = nbyt + 2;
       let g = g\<lparr>expected_to_move := STA_Floor_Info AND 0x03\<rparr>;
       let g = g\<lparr>sta_floor := real_of_int (drop_bit 2 STA_Floor_Info) / 16\<rparr>;
       (STA_Height_Above_Floor, nbyt) \<leftarrow>
         (if nlen = 5 then do { h \<leftarrow> getnumber str nbyt 2; Some (h, nbyt + 2) }
          else do { h \<leftarrow> getnumber str nbyt 3; Some (h, nbyt + 3) });
       let g = g\<lparr>sta_height_above_floor := real_of_int STA_Height_Above_Floor / 4096\<rparr>;
       STA_Height_Above_Floor_Uncertainty \<leftarrow> getoctet str nbyt;
       let nbyt = nbyt + 1;
       let g = (if STA_Height_Above_Floor_Uncertainty > MAX_Z_UNCERTAINTY
                then say (ZUncertaintyCode STA_Height_Above_Floor_Uncertainty) g else g);
       let g = g\<lparr>sta_height_above_floor_uncertainty :=
                 (if STA_Height_Above_Floor_Uncertainty > 0
                  then decodebinarydot STA_Height_Above_Floor_Uncertainty 11 else 0)\<rparr>;
       Some (nbyt, g)
     }
   }"

definition decodeUsagecase :: "buffer \<Rightarrow> nat \<Rightarrow> int \<Rightarrow> globals \<Rightarrow> (nat \<times> globals) option" where
  "decodeUsagecase str nbyt nlen g =
     (if nlen \<noteq> 1 \<and> nlen \<noteq> 3 then Some (nbyt + nat nlen, say (UsageLength nlen) g)
      else do {
        parameters \<leftarrow> getoctet str nbyt;
        let nbyt = nbyt + 1;
        let g = g\<lparr>retransmission_allowed := (if parameters AND 1 \<noteq> 0 then 1 else 0)\<rparr>;
        let g = g\<lparr>retention_expires_present := (if parameters AND 2 \<noteq> 0 then 1 else 0)\<rparr>;
        let g = g\<lparr>STA_location_policy := (if parameters AND 4 \<noteq> 0 then 1 else 0)\<rparr>;
        (nbyt, g) \<leftarrow>
          (if nlen = 1 then Some (nbyt, g\<lparr>expiration := 0\<rparr>)
           else if nlen = 3 then do {
             e \<leftarrow> getnumber str nbyt 2;
             Some (nbyt + nat (nlen - 1), g\<lparr>expiration := e\<rparr>) }
           else Some (nbyt, g));
        let g = (if retention_expires_present g \<noteq> 0 \<and> nlen \<noteq> 3
                 then say (RetentionLength nlen) g else g);
        let g = (if retention_expires_present g = 0 \<and> nlen \<noteq> 1 \<and> expiration g \<noteq> 0
                 then say (NoRetentionLength nlen) g else g);
        Some (nbyt, g)
      })"

definition decodeBSSIDcase :: "buffer \<Rightarrow> nat \<Rightarrow> int \<Rightarrow> globals \<Rightarrow> (nat \<times> globals) option" where
  "decodeBSSIDcase str nbyt nlen g = do {
     let g = (if c_mod (nlen - 1) 6 \<noteq> 0 then say (BSSIDLength nlen) g else g);
     decodeColocatedBSSID str nbyt nlen g
   }"

definition subelement :: "buffer \<Rightarrow> nat \<Rightarrow> int \<Rightarrow> int \<Rightarrow> globals \<Rightarrow> (nat \<times> globals) option" where
  "subelement str nbyt ID nlen g =
     (if ID = LCI_CODE then decodeLCIcase str nbyt nlen g
      else if ID = Z_CODE then decodeZcase str nbyt nlen g
      else if ID = USAGE_CODE then decodeUsagecase str nbyt nlen g
      else if ID = COLOCATED_BSSID then decodeBSSIDcase str nbyt nlen g
      else Some (nbyt + nat nlen, say (UnrecognizedSubelement ID nlen (nbyt - 2)) g))"

text \<open>
  The \<open>while\<close> loop of \<open>decodeLCIstring\<close>, from octet position \<open>nbyt\<close>; a \<open>break\<close>
  out of the loop returns at once.
\<close>

function subelements :: "buffer \<Rightarrow> nat \<Rightarrow> nat \<Rightarrow> globals \<Rightarrow> globals option" where
  "subelements str slen nbyt g =
     (if nbyt < slen then
        (case rd str (nbyt * 2) of
           None \<Rightarrow> None
         | Some c \<Rightarrow>
             if c = NUL then Some g
             else
               (case getoctet str nbyt of
                  None \<Rightarrow> None
                | Some ID \<Rightarrow>
                    (case getoctet str (nbyt + 1) of
                       None \<Rightarrow> None
                     | Some nlen \<Rightarrow>
                         if int (nbyt + 2) + nlen > int slen
                         then Some (say (BadLengthCode ID nlen (nbyt + 2) slen) g)
                         else
                           (case subelement str (nbyt + 2) ID nlen g of
                              None \<Rightarrow> None
                            | Some (nbyt', g') \<Rightarrow> subelements str slen nbyt' g'))))
      else Some g)"
  by pat_completeness auto

definition decodeLCIstring :: "buffer \<Rightarrow> globals \<Rightarrow> globals option" where
  "decodeLCIstring str g = do {
     n \<leftarrow> strlen str;
     let slen = n div 2;
     a \<leftarrow> getoctet str 0;
     b \<leftarrow> getoctet str 1;
     c \<leftarrow> getoctet str 2;
     let nbyt = 3;
     let g = (if a \<noteq> MEASURE_TOKEN \<or> b \<noteq> MEASURE_REQUEST_MODE \<or> c \<noteq> LCI_TYPE
              then say (BadMeasurementType a b c) g else g);
     g \<leftarrow> subelements str slen nbyt g;
     Some (checksettings g)
   }"

text \<open>
  What \<open>main\<close> does under \<open>checkflag\<close> when values to encode were given: it encodes, and
  decodes the array that \<open>encodeLCIstring\<close> returned.
\<close>

definition roundtrip :: "globals \<Rightarrow> globals option" where
  "roundtrip g = Option.bind (encodeLCIstring g) (\<lambda>(str, g'). decodeLCIstring str g')"

subsection \<open>The subelements of an encoded string\<close>

text \<open>
  The IDs of the subelements of an encoded string, read from octet position \<open>nbyt\<close> on
  as the decoder's loop reads them: an ID octet, a length octet, and that many octets.
\<close>

function subelement_IDs :: "string \<Rightarrow> nat \<Rightarrow> int list" where
  "subelement_IDs s nbyt =
     (if nbyt * 2 + 3 < length s then
        (case getoctet s nbyt of
           None \<Rightarrow> []
         | Some ID \<Rightarrow>
             (case getoctet s (nbyt + 1) of
                None \<Rightarrow> []
              | Some nlen \<Rightarrow> ID # subelement_IDs s (nbyt + 2 + nat nlen)))
      else [])"
  by pat_completeness auto

subsection \<open>Notions used in the proofs\<close>

text \<open>\<open>modifies str str' lo hi\<close>: the two arrays have the same length and differ at most at
  the positions \<open>lo ..< hi\<close>.\<close>

definition modifies :: "buffer \<Rightarrow> buffer \<Rightarrow> nat \<Rightarrow> nat \<Rightarrow> bool" where
  "modifies str str' lo hi \<longleftrightarrow>
     length str' = length str \<and> (\<forall>i. i < lo \<or> hi \<le> i \<longrightarrow> str' ! i = str ! i)"

text \<open>
  \<open>hexwrites s s'\<close>: every character of \<open>s'\<close> is that of \<open>s\<close> or a hexadecimal digit.
  \<open>holds str a n v\<close>: the \<open>n\<close> bits of the array from bit position \<open>a\<close> on are the \<open>n\<close> low
  bits of \<open>v\<close>, lowest first; \<open>fields_hold\<close> says so of a list of fields, each given by its
  offset, width and value. \<open>prints g g'\<close>: the global variables \<open>g'\<close> are \<open>g\<close> with lines
  printed. \<open>binarydot_code\<close> is the code that \<open>encodebinarydot\<close> returns, \<open>chosen_code\<close> the
  code that the encoders choose for an uncertainty (0, or the largest code under
  \<open>smallestflag\<close>, when it is not positive). \<open>casts_defined\<close>: the five conversions of the
  encoders from \<open>double\<close> to \<open>long long\<close> and \<open>int\<close> are in range. \<open>usage_parameters\<close> is the
  parameters octet that \<open>encodeUsageField\<close> builds after it has reconciled the flag,
  \<open>usage_octets\<close> the number of octets of the Usage subelement it writes, \<open>reconciled\<close> the
  global variables it returns.
\<close>

definition hexwrites :: "buffer \<Rightarrow> buffer \<Rightarrow> bool" where
  "hexwrites s s' \<longleftrightarrow> (\<forall>c. s' ! c = s ! c \<or> ishexdigit (s' ! c))"

definition holds :: "buffer \<Rightarrow> nat \<Rightarrow> nat \<Rightarrow> int \<Rightarrow> bool" where
  "holds str a n v \<longleftrightarrow> (\<forall>k<n. getbit str (a + k) = Some (bit v k))"

definition fields_hold :: "buffer \<Rightarrow> nat \<Rightarrow> (nat \<times> nat \<times> int) list \<Rightarrow> bool" where
  "fields_hold str base fs \<longleftrightarrow> (\<forall>(off, w, v) \<in> set fs. holds str (base + off) w v)"

definition prints :: "globals \<Rightarrow> globals \<Rightarrow> bool" where
  "prints g g' \<longleftrightarrow> (\<exists>msgs. g' = g\<lparr>printed := printed g @ msgs\<rparr>)"

definition binarydot_code :: "real \<Rightarrow> int \<Rightarrow> int" where
  "binarydot_code val m = fst (encodebinarydot val m initial)"

definition chosen_code :: "real \<Rightarrow> int \<Rightarrow> bool \<Rightarrow> int \<Rightarrow> int" where
  "chosen_code u m smallest maxcode =
     (if u > 0 then binarydot_code u m else if \<not> smallest then 0 else maxcode)"

definition casts_defined :: "globals \<Rightarrow> bool" where
  "casts_defined g \<longleftrightarrow>
     to_llong (c_round (latitude g * 2 ^ 25)) \<noteq> None
   \<and> to_llong (c_round (longitude g * 2 ^ 25)) \<noteq> None
   \<and> to_int (c_round (altitude g * 2 ^ 8)) \<noteq> None
   \<and> to_int (c_trunc (sta_floor g * 16)) \<noteq> None
   \<and> to_int (c_trunc (sta_height_above_floor g * 4096)) \<noteq> None"

definition usage_parameters :: "globals \<Rightarrow> int" where
  "usage_parameters g =
     retransmission_allowed g
       OR push_bit 1 (if expiration g = 0 then 0
                      else if retention_expires_present g \<noteq> 0 then retention_expires_present g
                      else 1)
       OR push_bit 2 (STA_location_policy g)"

definition usage_octets :: "globals \<Rightarrow> nat" where
  "usage_octets g = (if expiration g = 0 then 3 else 5)"

definition reconciled :: "globals \<Rightarrow> globals" where
  "reconciled g =
     (if retention_expires_present g \<noteq> 0 \<and> expiration g = 0
      then (say RetentionWithoutExpiration g)\<lparr>retention_expires_present := 0\<rparr>
      else if retention_expires_present g = 0 \<and> expiration g \<noteq> 0
      then (say ExpirationWithoutRetention g)\<lparr>retention_expires_present := 1\<rparr>
      else g)"

text \<open>
  The subelements of an encoded array: the number of octets that each takes
  (\<open>lci_octets\<close>, \<open>z_octets\<close>, \<open>bssid_octets\<close>, \<open>usage_octets\<close>), the octet position where each
  starts (\<open>z_pos\<close>, \<open>bssid_pos\<close>, \<open>usage_pos\<close>, \<open>end_pos\<close>), the conditions under which
  \<open>encodeLCIstring\<close> calls the encoders of the last two (\<open>bssid_emitted\<close>, \<open>usage_emitted\<close>),
  and what an array holds where a subelement has been written (\<open>lci_content\<close>,
  \<open>z_content\<close>, \<open>bssid_content\<close>, \<open>usage_content\<close>). \<open>encoding str nbyt\<close> is the state of the
  array between two encoders: hexadecimal digits everywhere but at the terminators, the
  one at the end of the array and the one at octet position \<open>nbyt\<close> (where the array
  still holds a digit when nothing has been encoded after the three header octets).
  \<open>lci_decoded\<close> and \<open>z_decoded\<close> give the values that the decoder makes of what the
  encoders have written, \<open>same_location\<close> relates two states of the global variables with
  the same location values.
\<close>

definition lci_octets :: "globals \<Rightarrow> nat" where
  "lci_octets g = (if wantLCIflag g then 18 else 0)"

definition z_octets :: "globals \<Rightarrow> nat" where
  "z_octets g = (if wantZflag g then 8 else 0)"

definition bssid_emitted :: "globals \<Rightarrow> bool" where
  "bssid_emitted g \<longleftrightarrow> wantColocatedflag g \<and> BSSIDS g \<noteq> []"

definition bssid_octets :: "globals \<Rightarrow> nat" where
  "bssid_octets g = (if bssid_emitted g then 3 + 6 * length (BSSIDS g) else 0)"

definition usage_needed :: "globals \<Rightarrow> bool" where
  "usage_needed g \<longleftrightarrow>
     (latitude g \<noteq> 0 \<or> longitude g \<noteq> 0 \<or> altitude g \<noteq> 0)
   \<or> (sta_floor g \<noteq> 0 \<or> sta_height_above_floor g \<noteq> 0
        \<or> sta_height_above_floor_uncertainty g \<noteq> 0)
   \<or> BSSIDS g \<noteq> []"

definition usage_emitted :: "globals \<Rightarrow> bool" where
  "usage_emitted g \<longleftrightarrow> wantUsageflag g \<and> usage_needed g"

definition z_pos :: "globals \<Rightarrow> nat" where
  "z_pos g = 3 + lci_octets g"

definition bssid_pos :: "globals \<Rightarrow> nat" where
  "bssid_pos g = z_pos g + z_octets g"

definition usage_pos :: "globals \<Rightarrow> nat" where
  "usage_pos g = bssid_pos g + bssid_octets g"

definition end_pos :: "globals \<Rightarrow> nat" where
  "end_pos g = usage_pos g + (if usage_emitted g then usage_octets g else 0)"

definition encoding :: "buffer \<Rightarrow> nat \<Rightarrow> bool" where
  "encoding str nbyt \<longleftrightarrow>
     nbyt * 2 < length str \<and> str ! (length str - 1) = NUL
   \<and> (\<forall>i. i + 1 < length str \<and> i \<noteq> nbyt * 2 \<longrightarrow> ishexdigit (str ! i))
   \<and> (if nbyt = 3 then ishexdigit (str ! (nbyt * 2)) else str ! (nbyt * 2) = NUL)"

definition lci_fields :: "globals \<Rightarrow> (nat \<times> nat \<times> int) list" where
  "lci_fields g =
        [(0, 6, chosen_code (latitude_uncertainty g) 8 (smallestflag g) MAX_LCI_UNCERTAINTY),
         (6, 34, c_round (latitude g * 2 ^ 25)),
         (40, 6, chosen_code (longitude_uncertainty g) 8 (smallestflag g) MAX_LCI_UNCERTAINTY),
         (46, 34, c_round (longitude g * 2 ^ 25)),
         (80, 4, Altitude_Type g),
         (84, 6, chosen_code (altitude_uncertainty g) 21 (smallestflag g) MAX_LCI_UNCERTAINTY),
         (90, 30, c_round (altitude g * 2 ^ 8)),
         (120, 3, datum g), (123, 1, RegLoc_Agreement g), (124, 1, RegLoc_DSE g),
         (125, 1, Dependent_STA g), (126, 2, LCI_version g)]"

definition lci_content :: "buffer \<Rightarrow> nat \<Rightarrow> globals \<Rightarrow> bool" where
  "lci_content str p g \<longleftrightarrow>
     getoctet str p = Some LCI_CODE \<and> getoctet str (p + 1) = Some 16
   \<and> fields_hold str ((p + 2) * 8) (lci_fields g)"

definition z_content :: "buffer \<Rightarrow> nat \<Rightarrow> globals \<Rightarrow> bool" where
  "z_content str p g \<longleftrightarrow>
     getoctet str p = Some Z_CODE \<and> getoctet str (p + 1) = Some 6
   \<and> getnumber str (p + 2) 2
        = Some (take_bit 16 ((expected_to_move g AND 3) OR push_bit 2 (c_trunc (sta_floor g * 16))))
   \<and> getnumber str (p + 4) 3 = Some (take_bit 24 (c_trunc (sta_height_above_floor g * 4096)))
   \<and> getoctet str (p + 7)
        = Some (if chosen_code (sta_height_above_floor_uncertainty g) 11 (smallestflag g)
                     MAX_Z_UNCERTAINTY > MAX_Z_UNCERTAINTY
                then MAX_Z_UNCERTAINTY
                else chosen_code (sta_height_above_floor_uncertainty g) 11 (smallestflag g)
                     MAX_Z_UNCERTAINTY)"

definition bssid_content :: "buffer \<Rightarrow> nat \<Rightarrow> globals \<Rightarrow> bool" where
  "bssid_content str p g \<longleftrightarrow>
     getoctet str p = Some COLOCATED_BSSID
   \<and> getoctet str (p + 1) = Some (int (length (BSSIDS g)) * 6 + 1)
   \<and> getoctet str (p + 2) = Some (int (length (BSSIDS g)))"

definition usage_content :: "buffer \<Rightarrow> nat \<Rightarrow> globals \<Rightarrow> bool" where
  "usage_content str p g \<longleftrightarrow>
     getoctet str p = Some USAGE_CODE \<and> getoctet str (p + 1) = Some (int (usage_octets g) - 2)"






section \<open>Termination of the decoder's loop\<close>

lemma for_loop_invariant:
  assumes "for_loop k n body s = Some s'" and "P s"
    and "\<And>j t t'. P t \<Longrightarrow> body j t = Some t' \<Longrightarrow> P t'"
  shows "P s'"
  using assms(1,2)
proof (induction n arbitrary: k s)
  case 0
  then show ?case by simp
next
  case (Suc n)
  then obtain t where t: "body k s = Some t" and r: "for_loop (Suc k) n body t = Some s'"
    by (auto simp: bind_eq_Some_conv)
  from assms(3) [OF Suc.prems(2) t] have "P t" .
  with r show ?case by (rule Suc.IH)
qed

lemma decodeColocatedBSSID_advances:
  assumes "decodeColocatedBSSID str nbyt nlen g = Some (nbyt', g')"
  shows "nbyt \<le> nbyt'"
proof -
  from assms obtain s0 bs g1 where
    loop: "for_loop 0 (nat (c_div (nlen - 1) 6))
       (\<lambda>k (nbyt, bssids, g). do {
          bssid \<leftarrow> strndup str (nbyt * 2) (6 * 2);
          bssids \<leftarrow> (if k < max_bssids g + 1 then Some (bssids @ [bssid]) else None);
          let nbyt = nbyt + 6;
          let g = (if \<not> isValidBSSID bssid then say (InvalidBSSID bssid) g else g);
          Some (nbyt, bssids, g) })
       s0 = Some (nbyt', bs, g1)" and s0: "fst s0 = nbyt + 1"
    by (auto simp: decodeColocatedBSSID_def Let_def bind_eq_Some_conv)
  have "nbyt + 1 \<le> fst (nbyt', bs, g1)"
    by (rule for_loop_invariant [OF loop, where P = "\<lambda>t. nbyt + 1 \<le> fst t"])
      (auto simp: s0 Let_def bind_eq_Some_conv split: if_splits)
  then show ?thesis by simp
qed

lemma subelement_advances:
  assumes "subelement str nbyt ID nlen g = Some (nbyt', g')"
  shows "nbyt \<le> nbyt'"
proof -
  consider "ID = LCI_CODE" | "ID = Z_CODE" | "ID = USAGE_CODE" | "ID = COLOCATED_BSSID"
    | "ID \<noteq> LCI_CODE" "ID \<noteq> Z_CODE" "ID \<noteq> USAGE_CODE" "ID \<noteq> COLOCATED_BSSID"
    by blast
  then show ?thesis
  proof cases
    case 1
    with assms show ?thesis
      by (auto simp: subelement_def decodeLCIcase_def Let_def bind_eq_Some_conv split: if_splits)
  next
    case 2
    with assms show ?thesis
      by (auto simp: subelement_def decodeZcase_def Let_def bind_eq_Some_conv split: if_splits)
  next
    case 3
    with assms show ?thesis
      by (auto simp: subelement_def decodeUsagecase_def Let_def bind_eq_Some_conv split: if_splits)
  next
    case 4
    with assms show ?thesis
      by (auto simp: subelement_def decodeBSSIDcase_def Let_def dest: decodeColocatedBSSID_advances)
  next
    case 5
    with assms show ?thesis
      by (auto simp: subelement_def)
  qed
qed

termination subelements
  by (relation "measure (\<lambda>(str, slen, nbyt, g). slen - nbyt)")
    (auto dest: subelement_advances)

declare subelements.simps [simp del]

termination subelement_IDs
  by (relation "measure (\<lambda>(s, nbyt). length s - nbyt * 2)") auto

declare subelement_IDs.simps [simp del]

section \<open>Hexadecimal digits and octets\<close>

lemma nibble_cases:
  assumes "0 \<le> k" "k \<le> (15::int)"
  shows "k \<in> {0, 1, 2, 3, 4, 5, 6, 7, 8, 9, 10, 11, 12, 13, 14, 15}"
  using assms by simp presburger

lemma hextoint_inttohex: "0 \<le> k \<Longrightarrow> k \<le> 15 \<Longrightarrow> hextoint (inttohex k) = k"
  using nibble_cases [of k] by (auto simp: hextoint_def inttohex_def)

lemma ishexdigit_inttohex: "0 \<le> k \<Longrightarrow> k \<le> 15 \<Longrightarrow> ishexdigit (inttohex k)"
  using nibble_cases [of k] by (auto simp: ishexdigit_def inttohex_def)

lemma ishexdigit_not_NUL: "ishexdigit c \<Longrightarrow> c \<noteq> NUL"
  by (auto simp: ishexdigit_def)

lemma and_15: "(n::int) AND 15 = n mod 16"
proof -
  have "n AND 15 = take_bit 4 n"
    by (simp add: take_bit_eq_mask mask_eq_exp_minus_1)
  then show ?thesis by (simp add: take_bit_eq_mod)
qed

lemma hextoint_range: "0 \<le> hextoint c \<and> hextoint c \<le> 15"
  unfolding hextoint_def Let_def and_15 by (auto; presburger)

lemma join_nibbles: "0 \<le> b \<Longrightarrow> b \<le> 15 \<Longrightarrow> push_bit 4 a OR b = 16 * a + (b::int)"
proof -
  assume "0 \<le> b" "b \<le> 15"
  then have b: "take_bit 4 b = b" by (simp add: take_bit_int_eq_self)
  have "push_bit 4 a OR b = concat_bit 4 b a"
    by (simp add: concat_bit_def b or.commute)
  also have "\<dots> = 16 * a + b"
    by (simp add: concat_bit_eq b push_bit_eq_mult)
  finally show ?thesis .
qed

section \<open>Reading and writing octets\<close>

lemma modifies_refl: "modifies s s lo hi"
  by (simp add: modifies_def)

lemma modifies_trans: "modifies a b lo hi \<Longrightarrow> modifies b c lo hi \<Longrightarrow> modifies a c lo hi"
  by (simp add: modifies_def)

lemma modifies_mono: "modifies a b lo hi \<Longrightarrow> lo' \<le> lo \<Longrightarrow> hi \<le> hi' \<Longrightarrow> modifies a b lo' hi'"
  by (auto simp: modifies_def)

lemma modifies_length: "modifies a b lo hi \<Longrightarrow> length b = length a"
  by (simp add: modifies_def)

lemma wr_Some: "i < length s \<Longrightarrow> wr s i c = Some (s[i := c])"
  by (simp add: wr_def)

lemma putoctet_Some:
  "nbyt * 2 + 1 < length s \<Longrightarrow>
   putoctet s nbyt v = Some (s[nbyt * 2 := inttohex (drop_bit 4 v), nbyt * 2 + 1 := inttohex (v AND 15)])"
  by (simp add: putoctet_def wr_def)

lemma putoctet_modifies:
  "putoctet s nbyt v = Some s' \<Longrightarrow> modifies s s' (nbyt * 2) (nbyt * 2 + 2)"
  by (auto simp: putoctet_def wr_def modifies_def bind_eq_Some_conv split: if_splits)

lemma rd_frame: "modifies s s' lo hi \<Longrightarrow> i < lo \<or> hi \<le> i \<Longrightarrow> rd s' i = rd s i"
  by (auto simp: modifies_def rd_def)

lemma getoctet_frame:
  "modifies s s' lo hi \<Longrightarrow> n * 2 + 2 \<le> lo \<or> hi \<le> n * 2 \<Longrightarrow> getoctet s' n = getoctet s n"
  by (auto simp: getoctet_def rd_frame [of s s' lo hi])

lemma getoctet_Some: "n * 2 + 1 < length s \<Longrightarrow> \<exists>v. getoctet s n = Some v"
  by (simp add: getoctet_def rd_def)

lemma getoctet_range: "getoctet s n = Some v \<Longrightarrow> 0 \<le> v \<and> v < 256"
proof -
  assume "getoctet s n = Some v"
  then obtain a b where v: "v = push_bit 4 (hextoint a) OR hextoint b"
    by (auto simp: getoctet_def bind_eq_Some_conv)
  have "v = 16 * hextoint a + hextoint b"
    unfolding v using hextoint_range [of b] by (simp add: join_nibbles)
  with hextoint_range [of a] hextoint_range [of b] show ?thesis by simp
qed

lemma getoctet_putoctet:
  assumes "putoctet s n v = Some s'" "0 \<le> v" "v < 256"
  shows "getoctet s' n = Some v"
proof -
  from assms(1) have len: "n * 2 + 1 < length s"
    by (auto simp: putoctet_def wr_def bind_eq_Some_conv split: if_splits)
  have hi: "0 \<le> drop_bit 4 v \<and> drop_bit 4 v \<le> 15"
  proof -
    have "drop_bit 4 v = v div 16" by (simp add: drop_bit_eq_div)
    moreover have "0 \<le> v div 16 \<and> v div 16 \<le> 15" using assms(2,3) by presburger
    ultimately show ?thesis by simp
  qed
  have lo: "0 \<le> v AND 15 \<and> v AND 15 \<le> 15"
    by (simp add: and_15)
  have "16 * drop_bit 4 v + (v AND 15) = v"
    by (simp add: and_15 drop_bit_eq_div)
  moreover from assms(1) len
  have "s' = s[n * 2 := inttohex (drop_bit 4 v), n * 2 + 1 := inttohex (v AND 15)]"
    by (simp add: putoctet_Some)
  ultimately show ?thesis
    using len hi lo
    by (simp add: getoctet_def rd_def hextoint_inttohex join_nibbles)
qed

lemma for_loop_numeral:
  "for_loop k (numeral n) body s = Option.bind (body k s) (for_loop (Suc k) (pred_numeral n) body)"
  by (simp add: numeral_eq_Suc)

lemma for_loop_1: "for_loop k 1 body s = body k s"
  by (cases "body k s") simp_all

lemma list_update_modifies: "modifies s (s[i := c]) i (Suc i)"
  by (simp add: modifies_def)

lemma putnumber_modifies:
  "putnumber s nbyt ndig num = Some s' \<Longrightarrow> modifies s s' (nbyt * 2) ((nbyt + ndig) * 2)"
proof -
  have "\<And>k s. for_loop k ndig (\<lambda>k str. putoctet str k (drop_bit ((nbyt + ndig0 - k - 1) * 8) num AND 0xFF)) s = Some s'
      \<Longrightarrow> modifies s s' (k * 2) ((k + ndig) * 2)" for ndig0
  proof (induction ndig)
    case 0
    then show ?case by (simp add: modifies_refl)
  next
    case (Suc ndig)
    then obtain t where t: "putoctet s k (drop_bit ((nbyt + ndig0 - k - 1) * 8) num AND 0xFF) = Some t"
      and r: "for_loop (Suc k) ndig (\<lambda>k str. putoctet str k (drop_bit ((nbyt + ndig0 - k - 1) * 8) num AND 0xFF)) t = Some s'"
      by (auto simp: bind_eq_Some_conv)
    have "modifies s t (k * 2) ((k + Suc ndig) * 2)"
      by (rule modifies_mono [OF putoctet_modifies [OF t]]) simp_all
    moreover have "modifies t s' (k * 2) ((k + Suc ndig) * 2)"
      by (rule modifies_mono [OF Suc.IH [OF r]]) simp_all
    ultimately show ?case by (rule modifies_trans)
  qed
  then show "putnumber s nbyt ndig num = Some s' \<Longrightarrow> modifies s s' (nbyt * 2) ((nbyt + ndig) * 2)"
    unfolding putnumber_def by blast
qed

lemma putnumber_Some:
  "(nbyt + ndig) * 2 \<le> length s \<Longrightarrow> \<exists>s'. putnumber s nbyt ndig num = Some s'"
proof -
  have "\<And>k s. (k + ndig) * 2 \<le> length s \<Longrightarrow>
      \<exists>s'. for_loop k ndig (\<lambda>k str. putoctet str k (drop_bit ((nbyt + ndig0 - k - 1) * 8) num AND 0xFF)) s = Some s'" for ndig0
  proof (induction ndig)
    case 0
    then show ?case by simp
  next
    case (Suc ndig)
    let ?t = "s[k * 2 := inttohex (drop_bit 4 (drop_bit ((nbyt + ndig0 - k - 1) * 8) num AND 0xFF)),
        k * 2 + 1 := inttohex ((drop_bit ((nbyt + ndig0 - k - 1) * 8) num AND 0xFF) AND 15)]"
    from Suc.prems have "(Suc k + ndig) * 2 \<le> length ?t" by simp
    from Suc.IH [OF this] Suc.prems show ?case
      by (simp add: putoctet_Some)
  qed
  then show "(nbyt + ndig) * 2 \<le> length s \<Longrightarrow> \<exists>s'. putnumber s nbyt ndig num = Some s'"
    unfolding putnumber_def by blast
qed

section \<open>Bit fields and multi-octet numbers\<close>

lemma getbit_eq:
  "getbit str i = map_option (\<lambda>oct. bit oct (i mod 8)) (getoctet str (i div 8))"
proof -
  have "i - 8 * (i div 8) = i mod 8" by (simp add: minus_mult_div_eq_mod)
  then show ?thesis
    by (cases "getoctet str (i div 8)")
      (simp_all add: getbit_def Let_def drop_bit_eq_div push_bit_eq_mult
        bit_iff_and_push_bit_not_eq_0 mult.commute)
qed

lemma putbit_eq:
  "putbit str i b =
     (case getoctet str (i div 8) of
        None \<Rightarrow> None
      | Some oct \<Rightarrow>
          putoctet str (i div 8) (if b then set_bit (i mod 8) oct else unset_bit (i mod 8) oct))"
proof -
  have "i - 8 * (i div 8) = i mod 8" by (simp add: minus_mult_div_eq_mod)
  then show ?thesis
    by (cases "getoctet str (i div 8)")
      (simp_all add: putbit_def Let_def drop_bit_eq_div push_bit_eq_mult
        set_bit_eq_or unset_bit_eq_and_not mult.commute)
qed

lemma octet_range_iff: "0 \<le> v \<and> v < 256 \<longleftrightarrow> take_bit 8 (v::int) = v"
  by (simp add: take_bit_int_eq_self_iff)

lemma putoctet_hex:
  assumes "putoctet s n v = Some s'" "0 \<le> v" "v < 256"
  shows "ishexdigit (s' ! (n * 2)) \<and> ishexdigit (s' ! (n * 2 + 1))"
proof -
  from assms(1) have len: "n * 2 + 1 < length s"
    by (auto simp: putoctet_def wr_def bind_eq_Some_conv split: if_splits)
  have hi: "0 \<le> drop_bit 4 v \<and> drop_bit 4 v \<le> 15"
  proof -
    have "drop_bit 4 v = v div 16" by (simp add: drop_bit_eq_div)
    moreover have "0 \<le> v div 16 \<and> v div 16 \<le> 15" using assms(2,3) by presburger
    ultimately show ?thesis by simp
  qed
  have lo: "0 \<le> v AND 15 \<and> v AND 15 \<le> 15"
    by (simp add: and_15)
  from assms(1) len
  have "s' = s[n * 2 := inttohex (drop_bit 4 v), n * 2 + 1 := inttohex (v AND 15)]"
    by (simp add: putoctet_Some)
  then show ?thesis
    using len hi lo by (simp add: ishexdigit_inttohex)
qed

lemma putbit_spec:
  assumes "(i div 8) * 2 + 1 < length str"
  shows "\<exists>str'. putbit str i b = Some str'
     \<and> modifies str str' ((i div 8) * 2) ((i div 8) * 2 + 2)
     \<and> (\<forall>j. getbit str' j = (if j = i then Some b else getbit str j))
     \<and> ishexdigit (str' ! ((i div 8) * 2)) \<and> ishexdigit (str' ! ((i div 8) * 2 + 1))"
proof -
  let ?n = "i div 8"
  from getoctet_Some [OF assms] obtain oct where oct: "getoctet str ?n = Some oct" by blast
  from getoctet_range [OF oct] have r: "take_bit 8 oct = oct"
    by (simp add: octet_range_iff [symmetric])
  define v where "v = (if b then set_bit (i mod 8) oct else unset_bit (i mod 8) oct)"
  have l: "\<not> 8 \<le> i mod 8" by simp
  have "take_bit 8 v = v"
    using r l by (simp add: v_def take_bit_set_bit_eq take_bit_unset_bit_eq)
  then have v: "0 \<le> v" "v < 256"
    by (simp_all add: octet_range_iff [symmetric])
  from assms obtain str' where str': "putoctet str ?n v = Some str'"
    by (simp add: putoctet_Some)
  have pb: "putbit str i b = Some str'"
    by (simp add: putbit_eq oct v_def [symmetric] str')
  have m: "modifies str str' (?n * 2) (?n * 2 + 2)"
    by (rule putoctet_modifies [OF str'])
  have o': "getoctet str' ?n = Some v"
    by (rule getoctet_putoctet [OF str' v])
  have bits: "getbit str' j = (if j = i then Some b else getbit str j)" for j
  proof (cases "j div 8 = ?n")
    case True
    have "j = i \<longleftrightarrow> j mod 8 = i mod 8"
      using True by (metis div_mult_mod_eq)
    then show ?thesis
      using True by (auto simp: getbit_eq o' oct v_def bit_simps)
  next
    case False
    then have "j div 8 * 2 + 2 \<le> ?n * 2 \<or> ?n * 2 + 2 \<le> j div 8 * 2" by arith
    from getoctet_frame [OF m this] False show ?thesis
      by (auto simp: getbit_eq)
  qed
  from pb m bits putoctet_hex [OF str' v] show ?thesis by blast
qed

lemma hexwrites_refl: "hexwrites s s"
  by (simp add: hexwrites_def)

lemma hexwrites_trans: "hexwrites a b \<Longrightarrow> hexwrites b c \<Longrightarrow> hexwrites a c"
  unfolding hexwrites_def by metis

lemma putbit_hexwrites:
  assumes "putbit str i b = Some str'"
  shows "hexwrites str str'"
proof -
  from assms have len: "(i div 8) * 2 + 1 < length str"
    by (auto simp: putbit_eq putoctet_def wr_def bind_eq_Some_conv split: option.splits if_splits)
  from putbit_spec [OF len, of b] assms
  have m: "modifies str str' ((i div 8) * 2) ((i div 8) * 2 + 2)"
    and h: "ishexdigit (str' ! ((i div 8) * 2))" "ishexdigit (str' ! ((i div 8) * 2 + 1))"
    by auto
  show ?thesis
    unfolding hexwrites_def
  proof
    fix c
    consider "c < (i div 8) * 2 \<or> (i div 8) * 2 + 2 \<le> c" | "c = (i div 8) * 2" | "c = (i div 8) * 2 + 1"
      by arith
    then show "str' ! c = str ! c \<or> ishexdigit (str' ! c)"
      using m h by cases (auto simp: modifies_def)
  qed
qed

lemma putbits_loop:
  assumes "(k + m + 7) div 8 * 2 \<le> length str"
  shows "\<exists>str'. for_loop k m (\<lambda>k str. putbit str k (bit (v::int) (k - a))) str = Some str'
     \<and> modifies str str' (k div 8 * 2) ((k + m + 7) div 8 * 2)
     \<and> hexwrites str str'
     \<and> (\<forall>j. getbit str' j = (if k \<le> j \<and> j < k + m then Some (bit v (j - a)) else getbit str j))"
  using assms
proof (induction m arbitrary: k str)
  case 0
  then show ?case by (auto simp: modifies_refl hexwrites_refl)
next
  case (Suc m)
  have "(k + 8) div 8 \<le> (k + Suc m + 7) div 8"
    by (rule div_le_mono) simp
  then have d1: "k div 8 + 1 \<le> (k + Suc m + 7) div 8" by simp
  have d2: "k div 8 \<le> Suc k div 8"
    by (rule div_le_mono) simp
  from Suc.prems d1 have len: "(k div 8) * 2 + 1 < length str" by simp
  from putbit_spec [OF len, of "bit v (k - a)"] obtain s1 where
    s1: "putbit str k (bit v (k - a)) = Some s1"
    and m1: "modifies str s1 ((k div 8) * 2) ((k div 8) * 2 + 2)"
    and b1: "\<And>j. getbit s1 j = (if j = k then Some (bit v (k - a)) else getbit str j)"
    by blast
  from Suc.prems m1 have "(Suc k + m + 7) div 8 * 2 \<le> length s1"
    by (simp add: modifies_def)
  from Suc.IH [OF this] obtain s2 where
    s2: "for_loop (Suc k) m (\<lambda>k str. putbit str k (bit v (k - a))) s1 = Some s2"
    and m2: "modifies s1 s2 (Suc k div 8 * 2) ((Suc k + m + 7) div 8 * 2)"
    and h2: "hexwrites s1 s2"
    and b2: "\<And>j. getbit s2 j = (if Suc k \<le> j \<and> j < Suc k + m then Some (bit v (j - a)) else getbit s1 j)"
    by blast
  have "modifies str s1 (k div 8 * 2) ((k + Suc m + 7) div 8 * 2)"
    by (rule modifies_mono [OF m1]) (use d1 in simp_all)
  moreover have "modifies s1 s2 (k div 8 * 2) ((k + Suc m + 7) div 8 * 2)"
    by (rule modifies_mono [OF m2]) (use d2 in simp_all)
  ultimately have m: "modifies str s2 (k div 8 * 2) ((k + Suc m + 7) div 8 * 2)"
    by (rule modifies_trans)
  have h: "hexwrites str s2"
    by (rule hexwrites_trans [OF putbit_hexwrites [OF s1] h2])
  have b: "getbit s2 j = (if k \<le> j \<and> j < k + Suc m then Some (bit v (j - a)) else getbit str j)" for j
    by (auto simp: b2 b1)
  from s1 s2 m h b show ?case by auto
qed

lemma putbits_spec:
  assumes "(a + n + 7) div 8 * 2 \<le> length str"
  shows "\<exists>str'. putbits str a n v = Some (str', a + n)
     \<and> modifies str str' (a div 8 * 2) ((a + n + 7) div 8 * 2)
     \<and> hexwrites str str'
     \<and> (\<forall>j. getbit str' j = (if a \<le> j \<and> j < a + n then Some (bit v (j - a)) else getbit str j))"
  using putbits_loop [OF assms, of v a]
  by (auto simp: putbits_def bit_iff_and_push_bit_not_eq_0)

lemma getbits_loop:
  assumes "\<And>k. k < d \<Longrightarrow> getbit str (a + m + k) = Some (bit (v::int) (m + k))"
  shows "for_loop (a + m) d
        (\<lambda>k (res, bt). do {
            b \<leftarrow> getbit str k;
            Some (if b then res OR bt else res, push_bit 1 bt) })
        (take_bit m v, 2 ^ m) = Some (take_bit (m + d) v, 2 ^ (m + d))"
  using assms
proof (induction d arbitrary: m)
  case 0
  then show ?case by simp
next
  case (Suc d)
  from Suc.prems [of 0] have g: "getbit str (a + m) = Some (bit v m)" by simp
  have step: "(if bit v m then take_bit m v OR 2 ^ m else take_bit m v) = take_bit (Suc m) v"
    by (rule bit_eqI) (auto simp: bit_simps less_Suc_eq)
  have "\<And>k. k < d \<Longrightarrow> getbit str (a + Suc m + k) = Some (bit v (Suc m + k))"
    using Suc.prems [of "Suc k" for k] by simp
  from Suc.IH [OF this] show ?case
    by (simp add: g step mult.commute)
qed

lemma getbits_spec:
  assumes "\<And>k. k < n \<Longrightarrow> getbit str (a + k) = Some (bit (v::int) k)"
  shows "getbits str a n = Some (take_bit n v)"
  using getbits_loop [of n str a 0 v] assms
  by (simp add: getbits_def)

lemma getbits_holds: "holds str a n v \<Longrightarrow> getbits str a n = Some (take_bit n v)"
  by (rule getbits_spec) (simp add: holds_def)

lemma getbit_frame:
  "modifies s s' lo hi \<Longrightarrow> j div 8 * 2 + 2 \<le> lo \<or> hi \<le> j div 8 * 2 \<Longrightarrow> getbit s' j = getbit s j"
  by (simp add: getbit_eq getoctet_frame)

lemma holds_frame:
  assumes "holds s a n v" "modifies s s' lo hi" "(a + n + 7) div 8 * 2 \<le> lo \<or> hi \<le> a div 8 * 2"
  shows "holds s' a n v"
  unfolding holds_def
proof (intro allI impI)
  fix k assume k: "k < n"
  have "a div 8 \<le> (a + k) div 8" by (rule div_le_mono) simp
  moreover have "(a + k + 8) div 8 \<le> (a + n + 7) div 8"
    by (rule div_le_mono) (use k in simp)
  then have "(a + k) div 8 + 1 \<le> (a + n + 7) div 8" by simp
  ultimately have "(a + k) div 8 * 2 + 2 \<le> lo \<or> hi \<le> (a + k) div 8 * 2"
    using assms(3) by auto
  from getbit_frame [OF assms(2) this] assms(1) k
  show "getbit s' (a + k) = Some (bit v k)" by (simp add: holds_def)
qed





lemma putoctet_hexwrites:
  assumes "putoctet s n v = Some s'" "0 \<le> v" "v < 256"
  shows "hexwrites s s'"
  unfolding hexwrites_def
proof
  fix c
  consider "c < n * 2 \<or> n * 2 + 2 \<le> c" | "c = n * 2" | "c = n * 2 + 1" by arith
  then show "s' ! c = s ! c \<or> ishexdigit (s' ! c)"
    using putoctet_modifies [OF assms(1)] putoctet_hex [OF assms]
    by cases (auto simp: modifies_def)
qed

lemma and_255: "(x::int) AND 255 = take_bit 8 x"
  by (simp add: take_bit_eq_mask mask_eq_exp_minus_1)

lemma byte_range: "0 \<le> (x::int) AND 255 \<and> x AND 255 < 256"
  using take_bit_int_less_exp [of 8 x] by (simp add: and_255)

lemma putnumber_loop:
  assumes "(k + d) * 2 \<le> length s"
  shows "\<exists>s'. for_loop k d (\<lambda>k str. putoctet str k (f k AND 0xFF)) s = Some s'
     \<and> modifies s s' (k * 2) ((k + d) * 2) \<and> hexwrites s s'
     \<and> (\<forall>j. k \<le> j \<and> j < k + d \<longrightarrow> getoctet s' j = Some (f j AND 0xFF))"
  using assms
proof (induction d arbitrary: k s)
  case 0
  then show ?case by (auto simp: modifies_refl hexwrites_refl)
next
  case (Suc d)
  from Suc.prems obtain s1 where s1: "putoctet s k (f k AND 0xFF) = Some s1"
    by (simp add: putoctet_Some)
  note r = byte_range [of "f k"]
  have m1: "modifies s s1 (k * 2) (k * 2 + 2)" by (rule putoctet_modifies [OF s1])
  have o1: "getoctet s1 k = Some (f k AND 0xFF)"
    by (rule getoctet_putoctet [OF s1]) (use r in simp_all)
  have h1: "hexwrites s s1"
    by (rule putoctet_hexwrites [OF s1]) (use r in simp_all)
  from Suc.prems m1 have "(Suc k + d) * 2 \<le> length s1" by (simp add: modifies_def)
  from Suc.IH [OF this] obtain s2 where
    s2: "for_loop (Suc k) d (\<lambda>k str. putoctet str k (f k AND 0xFF)) s1 = Some s2"
    and m2: "modifies s1 s2 (Suc k * 2) ((Suc k + d) * 2)"
    and h2: "hexwrites s1 s2"
    and o2: "\<And>j. Suc k \<le> j \<and> j < Suc k + d \<Longrightarrow> getoctet s2 j = Some (f j AND 0xFF)"
    by blast
  have "modifies s s1 (k * 2) ((k + Suc d) * 2)"
    by (rule modifies_mono [OF m1]) simp_all
  moreover have "modifies s1 s2 (k * 2) ((k + Suc d) * 2)"
    by (rule modifies_mono [OF m2]) simp_all
  ultimately have m: "modifies s s2 (k * 2) ((k + Suc d) * 2)" by (rule modifies_trans)
  have o: "getoctet s2 j = Some (f j AND 0xFF)" if "k \<le> j \<and> j < k + Suc d" for j
  proof (cases "j = k")
    case True
    from getoctet_frame [OF m2, of k] o1 True show ?thesis by simp
  next
    case False
    with that show ?thesis by (intro o2) simp
  qed
  from s1 s2 m hexwrites_trans [OF h1 h2] o show ?case by auto
qed

lemma putnumber_spec:
  assumes "(n + d) * 2 \<le> length s"
  shows "\<exists>s'. putnumber s n d v = Some s'
     \<and> modifies s s' (n * 2) ((n + d) * 2) \<and> hexwrites s s'
     \<and> (\<forall>j<d. getoctet s' (n + j) = Some (drop_bit ((d - j - 1) * 8) v AND 0xFF))"
proof -
  from putnumber_loop [OF assms, of "\<lambda>k. drop_bit ((n + d - k - 1) * 8) v"]
  obtain s' where s': "putnumber s n d v = Some s'"
    and m: "modifies s s' (n * 2) ((n + d) * 2)" and h: "hexwrites s s'"
    and o: "\<And>j. n \<le> j \<and> j < n + d \<Longrightarrow> getoctet s' j = Some (drop_bit ((n + d - j - 1) * 8) v AND 0xFF)"
    unfolding putnumber_def by blast
  have "getoctet s' (n + j) = Some (drop_bit ((d - j - 1) * 8) v AND 0xFF)" if "j < d" for j
    using o [of "n + j"] that by simp
  with s' m h show ?thesis by blast
qed

lemma getnumber_loop:
  assumes "\<And>j. j < d \<Longrightarrow> getoctet s (n + m + j) = Some (drop_bit ((d - j - 1) * 8) v AND 0xFF)"
  shows "for_loop (n + m) d (\<lambda>k res. do { oct \<leftarrow> getoctet s k; Some (push_bit 8 res OR oct) })
           (take_bit (m * 8) (drop_bit (d * 8) v)) = Some (take_bit ((m + d) * 8) (v::int))"
  using assms
proof (induction d arbitrary: m)
  case 0
  then show ?case by simp
next
  case (Suc d)
  from Suc.prems [of 0] have g: "getoctet s (n + m) = Some (drop_bit (d * 8) v AND 0xFF)" by simp
  have step: "push_bit 8 (take_bit (m * 8) (drop_bit (Suc d * 8) v)) OR (drop_bit (d * 8) v AND 0xFF)
      = take_bit (Suc m * 8) (drop_bit (d * 8) v)"
    unfolding and_255
  proof (rule bit_eqI)
    fix i
    have "8 \<le> i \<Longrightarrow> i - 8 + (8 + d * 8) = i + d * 8" by simp
    then show "bit (push_bit 8 (take_bit (m * 8) (drop_bit (Suc d * 8) v)) OR take_bit 8 (drop_bit (d * 8) v)) i
       \<longleftrightarrow> bit (take_bit (Suc m * 8) (drop_bit (d * 8) v)) i"
      by (auto simp: bit_simps)
  qed
  have "\<And>j. j < d \<Longrightarrow> getoctet s (n + Suc m + j) = Some (drop_bit ((d - j - 1) * 8) v AND 0xFF)"
    using Suc.prems [of "Suc j" for j] by simp
  from Suc.IH [OF this] show ?case
    by (simp only: for_loop.simps g bind.bind_lunit step add_Suc_right add_Suc)
qed

lemma getnumber_spec:
  assumes "\<And>j. j < d \<Longrightarrow> getoctet s (n + j) = Some (drop_bit ((d - j - 1) * 8) v AND 0xFF)"
  shows "getnumber s n d = Some (take_bit (d * 8) (v::int))"
  using getnumber_loop [of d s n 0 v] assms by (simp add: getnumber_def)

section \<open>The LCI subelement encoder\<close>

lemma prints_refl: "prints g g"
  unfolding prints_def by (rule exI [of _ "[]"]) simp

lemma prints_trans: "prints a b \<Longrightarrow> prints b c \<Longrightarrow> prints a c"
  unfolding prints_def
proof -
  assume "\<exists>msgs. b = a\<lparr>printed := printed a @ msgs\<rparr>" "\<exists>msgs. c = b\<lparr>printed := printed b @ msgs\<rparr>"
  then obtain m1 m2 where "b = a\<lparr>printed := printed a @ m1\<rparr>" "c = b\<lparr>printed := printed b @ m2\<rparr>"
    by blast
  then have "c = a\<lparr>printed := printed a @ (m1 @ m2)\<rparr>" by simp
  then show "\<exists>msgs. c = a\<lparr>printed := printed a @ msgs\<rparr>" ..
qed

lemma prints_say: "prints g (say d g)"
  unfolding prints_def say_def by blast

lemma encodebinarydot_prints:
  "encodebinarydot val m g = (binarydot_code val m, snd (encodebinarydot val m g))
   \<and> prints g (snd (encodebinarydot val m g))"
  by (simp add: encodebinarydot_def binarydot_code_def Let_def prints_say prints_refl)

lemma chosen_code_prints:
  "\<exists>g'. (if u > 0 then encodebinarydot u m g else if \<not> sm then (0, g) else (mx, g))
      = (chosen_code u m sm mx, g') \<and> prints g g'"
  using encodebinarydot_prints [of u m g]
  by (auto simp: chosen_code_def prints_refl)

lemma putbits_field:
  assumes fh: "fields_hold s base fs" and disj: "\<forall>(off', w', v') \<in> set fs. off' + w' \<le> off"
    and room: "(base + off + n + 7) div 8 * 2 \<le> length s"
  shows "\<exists>s'. putbits s (base + off) n v = Some (s', base + off + n)
      \<and> modifies s s' ((base + off) div 8 * 2) ((base + off + n + 7) div 8 * 2) \<and> hexwrites s s'
      \<and> fields_hold s' base (fs @ [(off, n, v)])"
proof -
  from putbits_spec [OF room, of v] obtain s' where
    s': "putbits s (base + off) n v = Some (s', base + off + n)"
    and m: "modifies s s' ((base + off) div 8 * 2) ((base + off + n + 7) div 8 * 2)"
    and h: "hexwrites s s'"
    and b: "\<And>j. getbit s' j =
        (if base + off \<le> j \<and> j < base + off + n then Some (bit v (j - (base + off))) else getbit s j)"
    by blast
  have new: "holds s' (base + off) n v"
    by (simp add: holds_def b)
  have old: "holds s' (base + off') w' v'" if "(off', w', v') \<in> set fs" for off' w' v'
  proof -
    from that disj have le: "off' + w' \<le> off" by auto
    from that fh have "holds s (base + off') w' v'" by (auto simp: fields_hold_def)
    with le show ?thesis by (simp add: holds_def b)
  qed
  from new old have "fields_hold s' base (fs @ [(off, n, v)])"
    by (auto simp: fields_hold_def)
  with s' m h show ?thesis by blast
qed

lemma lci_room:
  assumes "(nbyt + 18) * 2 < (len::nat)" "x \<le> 128"
  shows "((nbyt + 2) * 8 + x + 7) div 8 * 2 \<le> len"
proof -
  have "((nbyt + 2) * 8 + x + 7) div 8 \<le> ((nbyt + 2) * 8 + 135) div 8"
    by (rule div_le_mono) (use assms(2) in simp)
  also have "\<dots> = nbyt + 18" by simp
  finally show ?thesis using assms(1) by simp
qed

lemma lci_range:
  assumes "x \<le> (128::nat)"
  shows "(nbyt + 2) * 2 \<le> ((nbyt + 2) * 8 + y) div 8 * 2
     \<and> ((nbyt + 2) * 8 + x + 7) div 8 * 2 \<le> (nbyt + 18) * 2"
proof -
  have "((nbyt + 2) * 8 + x + 7) div 8 \<le> ((nbyt + 2) * 8 + 135) div 8"
    by (rule div_le_mono) (use assms in simp)
  also have "\<dots> = nbyt + 18" by simp
  finally have "((nbyt + 2) * 8 + x + 7) div 8 \<le> nbyt + 18" .
  moreover have "((nbyt + 2) * 8) div 8 \<le> ((nbyt + 2) * 8 + y) div 8"
    by (rule div_le_mono) simp
  then have "nbyt + 2 \<le> ((nbyt + 2) * 8 + y) div 8" by simp
  ultimately show ?thesis by simp
qed

lemma prints_fields:
  assumes "prints g g'"
  shows "latitude g' = latitude g" "longitude g' = longitude g" "altitude g' = altitude g"
    "latitude_uncertainty g' = latitude_uncertainty g"
    "longitude_uncertainty g' = longitude_uncertainty g"
    "altitude_uncertainty g' = altitude_uncertainty g"
    "smallestflag g' = smallestflag g" "Altitude_Type g' = Altitude_Type g"
    "datum g' = datum g" "RegLoc_Agreement g' = RegLoc_Agreement g"
    "RegLoc_DSE g' = RegLoc_DSE g" "Dependent_STA g' = Dependent_STA g"
    "LCI_version g' = LCI_version g" "expected_to_move g' = expected_to_move g"
    "sta_floor g' = sta_floor g" "sta_height_above_floor g' = sta_height_above_floor g"
    "sta_height_above_floor_uncertainty g' = sta_height_above_floor_uncertainty g"
    "retransmission_allowed g' = retransmission_allowed g"
    "retention_expires_present g' = retention_expires_present g"
    "STA_location_policy g' = STA_location_policy g" "expiration g' = expiration g"
    "BSSIDS g' = BSSIDS g" "max_bssids g' = max_bssids g"
    "wantLCIflag g' = wantLCIflag g" "wantZflag g' = wantZflag g"
    "wantUsageflag g' = wantUsageflag g" "wantColocatedflag g' = wantColocatedflag g"
  using assms by (auto simp: prints_def)

lemma encodeLCIfield_spec:
  assumes room: "(nbyt + 18) * 2 < length str"
    and lat: "to_llong (c_round (latitude g * 2 ^ 25)) = Some Lat"
    and lon: "to_llong (c_round (longitude g * 2 ^ 25)) = Some Lon"
    and alt: "to_int (c_round (altitude g * 2 ^ 8)) = Some Alt"
  shows "\<exists>str' g'. encodeLCIfield str nbyt g = Some (str', nbyt + 18, g')
     \<and> prints g g'
     \<and> modifies str str' (nbyt * 2) ((nbyt + 18) * 2 + 1)
     \<and> (\<forall>c. c \<noteq> (nbyt + 18) * 2 \<longrightarrow> str' ! c = str ! c \<or> ishexdigit (str' ! c))
     \<and> str' ! ((nbyt + 18) * 2) = NUL
     \<and> getoctet str' nbyt = Some LCI_CODE \<and> getoctet str' (nbyt + 1) = Some 16
     \<and> fields_hold str' ((nbyt + 2) * 8)
          [(0, 6, chosen_code (latitude_uncertainty g) 8 (smallestflag g) MAX_LCI_UNCERTAINTY),
           (6, 34, Lat),
           (40, 6, chosen_code (longitude_uncertainty g) 8 (smallestflag g) MAX_LCI_UNCERTAINTY),
           (46, 34, Lon),
           (80, 4, Altitude_Type g),
           (84, 6, chosen_code (altitude_uncertainty g) 21 (smallestflag g) MAX_LCI_UNCERTAINTY),
           (90, 30, Alt),
           (120, 3, datum g), (123, 1, RegLoc_Agreement g), (124, 1, RegLoc_DSE g),
           (125, 1, Dependent_STA g), (126, 2, LCI_version g)]"
proof -
  define B where "B = push_bit 3 (nbyt + 2)"
  have B: "B = (nbyt + 2) * 8" by (simp add: B_def push_bit_eq_mult)
  obtain s1 where s1: "putoctet str nbyt LCI_CODE = Some s1"
    using room by (simp add: putoctet_Some)
  have m1: "modifies str s1 (nbyt * 2) (nbyt * 2 + 2)" by (rule putoctet_modifies [OF s1])
  have h1: "hexwrites str s1" by (rule putoctet_hexwrites [OF s1]) simp_all
  have o1: "getoctet s1 nbyt = Some LCI_CODE" by (rule getoctet_putoctet [OF s1]) simp_all
  have l1: "length s1 = length str" using m1 by (simp add: modifies_def)
  obtain s2 where s2: "putoctet s1 (nbyt + 1) 16 = Some s2"
    using room l1 by (simp add: putoctet_Some)
  have m2: "modifies s1 s2 ((nbyt + 1) * 2) ((nbyt + 1) * 2 + 2)" by (rule putoctet_modifies [OF s2])
  have h2: "hexwrites s1 s2" by (rule putoctet_hexwrites [OF s2]) simp_all
  have o2: "getoctet s2 (nbyt + 1) = Some 16" by (rule getoctet_putoctet [OF s2]) simp_all
  have o2': "getoctet s2 nbyt = Some LCI_CODE"
    using getoctet_frame [OF m2, of nbyt] o1 by simp
  have l2: "length s2 = length str" using m2 l1 by (simp add: modifies_def)
  have m02: "modifies str s2 (nbyt * 2) ((nbyt + 2) * 2)"
    by (rule modifies_trans [OF modifies_mono [OF m1] modifies_mono [OF m2]]) simp_all

  obtain g1 where e1: "(if latitude_uncertainty g > 0 then encodebinarydot (latitude_uncertainty g) 8 g
        else if \<not> smallestflag g then (0, g)
        else (MAX_LCI_UNCERTAINTY, g))
      = (chosen_code (latitude_uncertainty g) 8 (smallestflag g) MAX_LCI_UNCERTAINTY, g1)"
    and pr1: "prints g g1"
    using chosen_code_prints [of "latitude_uncertainty g" 8 g "smallestflag g" MAX_LCI_UNCERTAINTY]
    by blast
  obtain g2 where e2: "(if longitude_uncertainty g1 > 0 then encodebinarydot (longitude_uncertainty g1) 8 g1
        else if \<not> smallestflag g1 then (0, g1)
        else (MAX_LCI_UNCERTAINTY, g1))
      = (chosen_code (longitude_uncertainty g1) 8 (smallestflag g1) MAX_LCI_UNCERTAINTY, g2)"
    and pr2: "prints g1 g2"
    using chosen_code_prints [of "longitude_uncertainty g1" 8 g1 "smallestflag g1" MAX_LCI_UNCERTAINTY]
    by blast
  obtain g3 where e3: "(if altitude_uncertainty g2 > 0 then encodebinarydot (altitude_uncertainty g2) 21 g2
        else if \<not> smallestflag g2 then (0, g2)
        else (MAX_LCI_UNCERTAINTY, g2))
      = (chosen_code (altitude_uncertainty g2) 21 (smallestflag g2) MAX_LCI_UNCERTAINTY, g3)"
    and pr3: "prints g2 g3"
    using chosen_code_prints [of "altitude_uncertainty g2" 21 g2 "smallestflag g2" MAX_LCI_UNCERTAINTY]
    by blast
  have pr12: "prints g g2" by (rule prints_trans [OF pr1 pr2])
  have pr: "prints g g3" by (rule prints_trans [OF pr12 pr3])
  let ?LU = "chosen_code (latitude_uncertainty g) 8 (smallestflag g) MAX_LCI_UNCERTAINTY"
  let ?LoU = "chosen_code (longitude_uncertainty g1) 8 (smallestflag g1) MAX_LCI_UNCERTAINTY"
  let ?AU = "chosen_code (altitude_uncertainty g2) 21 (smallestflag g2) MAX_LCI_UNCERTAINTY"

  have step: "\<exists>s'. putbits s (B + off) n v = Some (s', B + off + n)
      \<and> modifies s s' ((nbyt + 2) * 2) ((nbyt + 18) * 2) \<and> hexwrites s s'
      \<and> length s' = length str \<and> fields_hold s' B (fs @ [(off, n, v)])"
    if "fields_hold s B fs" "\<forall>(off', w', v') \<in> set fs. off' + w' \<le> off" "off + n \<le> 128"
       "length s = length str"
    for s fs off n v
  proof -
    from lci_room [OF room that(3)] that(4)
    have "(B + off + n + 7) div 8 * 2 \<le> length s" by (simp add: B add.assoc)
    from putbits_field [OF that(1,2) this, of v] obtain s' where
      s': "putbits s (B + off) n v = Some (s', B + off + n)"
      and m: "modifies s s' ((B + off) div 8 * 2) ((B + off + n + 7) div 8 * 2)"
      and h: "hexwrites s s'" and f: "fields_hold s' B (fs @ [(off, n, v)])"
      by blast
    from lci_range [OF that(3), of nbyt off]
    have "modifies s s' ((nbyt + 2) * 2) ((nbyt + 18) * 2)"
      by (intro modifies_mono [OF m]) (simp_all add: B add.assoc)
    moreover from this that(4) have "length s' = length str" by (simp add: modifies_def)
    ultimately show ?thesis using s' h f by blast
  qed
  have f0: "fields_hold s2 B []" by (simp add: fields_hold_def)
  from step [OF f0, of 0 6 ?LU] l2 obtain s3 where
    p1: "putbits s2 B 6 ?LU = Some (s3, B + 6)"
    and m3: "modifies s2 s3 ((nbyt + 2) * 2) ((nbyt + 18) * 2)" and h3: "hexwrites s2 s3"
    and l3: "length s3 = length str" and f1: "fields_hold s3 B [(0, 6, ?LU)]"
    by auto
  from step [OF f1, of 6 34 Lat] l3 obtain s4 where
    p2: "putbits s3 (B + 6) 34 Lat = Some (s4, B + 40)"
    and m4: "modifies s3 s4 ((nbyt + 2) * 2) ((nbyt + 18) * 2)" and h4: "hexwrites s3 s4"
    and l4: "length s4 = length str" and f2: "fields_hold s4 B [(0, 6, ?LU), (6, 34, Lat)]"
    by auto
  from step [OF f2, of 40 6 ?LoU] l4 obtain s5 where
    p3: "putbits s4 (B + 40) 6 ?LoU = Some (s5, B + 46)"
    and m5: "modifies s4 s5 ((nbyt + 2) * 2) ((nbyt + 18) * 2)" and h5: "hexwrites s4 s5"
    and l5: "length s5 = length str"
    and f3: "fields_hold s5 B [(0, 6, ?LU), (6, 34, Lat), (40, 6, ?LoU)]"
    by auto
  from step [OF f3, of 46 34 Lon] l5 obtain s6 where
    p4: "putbits s5 (B + 46) 34 Lon = Some (s6, B + 80)"
    and m6: "modifies s5 s6 ((nbyt + 2) * 2) ((nbyt + 18) * 2)" and h6: "hexwrites s5 s6"
    and l6: "length s6 = length str"
    and f4: "fields_hold s6 B [(0, 6, ?LU), (6, 34, Lat), (40, 6, ?LoU), (46, 34, Lon)]"
    by auto
  from step [OF f4, of 80 4 "Altitude_Type g3"] l6 obtain s7 where
    p5: "putbits s6 (B + 80) 4 (Altitude_Type g3) = Some (s7, B + 84)"
    and m7: "modifies s6 s7 ((nbyt + 2) * 2) ((nbyt + 18) * 2)" and h7: "hexwrites s6 s7"
    and l7: "length s7 = length str"
    and f5: "fields_hold s7 B [(0, 6, ?LU), (6, 34, Lat), (40, 6, ?LoU), (46, 34, Lon),
        (80, 4, Altitude_Type g3)]"
    by auto
  from step [OF f5, of 84 6 ?AU] l7 obtain s8 where
    p6: "putbits s7 (B + 84) 6 ?AU = Some (s8, B + 90)"
    and m8: "modifies s7 s8 ((nbyt + 2) * 2) ((nbyt + 18) * 2)" and h8: "hexwrites s7 s8"
    and l8: "length s8 = length str"
    and f6: "fields_hold s8 B [(0, 6, ?LU), (6, 34, Lat), (40, 6, ?LoU), (46, 34, Lon),
        (80, 4, Altitude_Type g3), (84, 6, ?AU)]"
    by auto
  from step [OF f6, of 90 30 Alt] l8 obtain s9 where
    p7: "putbits s8 (B + 90) 30 Alt = Some (s9, B + 120)"
    and m9: "modifies s8 s9 ((nbyt + 2) * 2) ((nbyt + 18) * 2)" and h9: "hexwrites s8 s9"
    and l9: "length s9 = length str"
    and f7: "fields_hold s9 B [(0, 6, ?LU), (6, 34, Lat), (40, 6, ?LoU), (46, 34, Lon),
        (80, 4, Altitude_Type g3), (84, 6, ?AU), (90, 30, Alt)]"
    by auto
  from step [OF f7, of 120 3 "datum g3"] l9 obtain s10 where
    p8: "putbits s9 (B + 120) 3 (datum g3) = Some (s10, B + 123)"
    and m10: "modifies s9 s10 ((nbyt + 2) * 2) ((nbyt + 18) * 2)" and h10: "hexwrites s9 s10"
    and l10: "length s10 = length str"
    and f8: "fields_hold s10 B [(0, 6, ?LU), (6, 34, Lat), (40, 6, ?LoU), (46, 34, Lon),
        (80, 4, Altitude_Type g3), (84, 6, ?AU), (90, 30, Alt), (120, 3, datum g3)]"
    by auto
  from step [OF f8, of 123 1 "RegLoc_Agreement g3"] l10 obtain s11 where
    p9: "putbits s10 (B + 123) 1 (RegLoc_Agreement g3) = Some (s11, B + 124)"
    and m11: "modifies s10 s11 ((nbyt + 2) * 2) ((nbyt + 18) * 2)" and h11: "hexwrites s10 s11"
    and l11: "length s11 = length str"
    and f9: "fields_hold s11 B [(0, 6, ?LU), (6, 34, Lat), (40, 6, ?LoU), (46, 34, Lon),
        (80, 4, Altitude_Type g3), (84, 6, ?AU), (90, 30, Alt), (120, 3, datum g3),
        (123, 1, RegLoc_Agreement g3)]"
    by auto
  from step [OF f9, of 124 1 "RegLoc_DSE g3"] l11 obtain s12 where
    p10: "putbits s11 (B + 124) 1 (RegLoc_DSE g3) = Some (s12, B + 125)"
    and m12: "modifies s11 s12 ((nbyt + 2) * 2) ((nbyt + 18) * 2)" and h12: "hexwrites s11 s12"
    and l12: "length s12 = length str"
    and f10: "fields_hold s12 B [(0, 6, ?LU), (6, 34, Lat), (40, 6, ?LoU), (46, 34, Lon),
        (80, 4, Altitude_Type g3), (84, 6, ?AU), (90, 30, Alt), (120, 3, datum g3),
        (123, 1, RegLoc_Agreement g3), (124, 1, RegLoc_DSE g3)]"
    by auto
  from step [OF f10, of 125 1 "Dependent_STA g3"] l12 obtain s13 where
    p11: "putbits s12 (B + 125) 1 (Dependent_STA g3) = Some (s13, B + 126)"
    and m13: "modifies s12 s13 ((nbyt + 2) * 2) ((nbyt + 18) * 2)" and h13: "hexwrites s12 s13"
    and l13: "length s13 = length str"
    and f11: "fields_hold s13 B [(0, 6, ?LU), (6, 34, Lat), (40, 6, ?LoU), (46, 34, Lon),
        (80, 4, Altitude_Type g3), (84, 6, ?AU), (90, 30, Alt), (120, 3, datum g3),
        (123, 1, RegLoc_Agreement g3), (124, 1, RegLoc_DSE g3), (125, 1, Dependent_STA g3)]"
    by auto
  from step [OF f11, of 126 2 "LCI_version g3"] l13 obtain s14 where
    p12: "putbits s13 (B + 126) 2 (LCI_version g3) = Some (s14, B + 128)"
    and m14: "modifies s13 s14 ((nbyt + 2) * 2) ((nbyt + 18) * 2)" and h14: "hexwrites s13 s14"
    and l14: "length s14 = length str"
    and f12: "fields_hold s14 B [(0, 6, ?LU), (6, 34, Lat), (40, 6, ?LoU), (46, 34, Lon),
        (80, 4, Altitude_Type g3), (84, 6, ?AU), (90, 30, Alt), (120, 3, datum g3),
        (123, 1, RegLoc_Agreement g3), (124, 1, RegLoc_DSE g3), (125, 1, Dependent_STA g3),
        (126, 2, LCI_version g3)]"
    by auto
  have dB: "drop_bit 3 (B + 128) = nbyt + 18"
    by (simp add: B drop_bit_eq_div)
  define s15 where "s15 = s14[(nbyt + 18) * 2 := NUL]"
  have w: "wr s14 (drop_bit 3 (B + 128) * 2) NUL = Some s15"
    unfolding dB s15_def using room l14 by (simp add: wr_Some)
  have main: "encodeLCIfield str nbyt g = Some (s15, drop_bit 3 (B + 128), g3)"
    unfolding encodeLCIfield_def Let_def B_def [symmetric]
    by (simp only: s1 s2 lat lon alt e1 e2 e3 p1 p2 p3 p4 p5 p6 p7 p8 p9 p10 p11 p12 w
        bind.bind_lunit prod.case)
  have mm: "modifies s2 s14 ((nbyt + 2) * 2) ((nbyt + 18) * 2)"
    by (intro modifies_trans [OF m3] modifies_trans [OF m4] modifies_trans [OF m5]
        modifies_trans [OF m6] modifies_trans [OF m7] modifies_trans [OF m8]
        modifies_trans [OF m9] modifies_trans [OF m10] modifies_trans [OF m11]
        modifies_trans [OF m12] modifies_trans [OF m13] m14)
  have hh: "hexwrites str s14"
    by (intro hexwrites_trans [OF h1] hexwrites_trans [OF h2] hexwrites_trans [OF h3]
        hexwrites_trans [OF h4] hexwrites_trans [OF h5] hexwrites_trans [OF h6]
        hexwrites_trans [OF h7] hexwrites_trans [OF h8] hexwrites_trans [OF h9]
        hexwrites_trans [OF h10] hexwrites_trans [OF h11] hexwrites_trans [OF h12]
        hexwrites_trans [OF h13] h14)
  have m014: "modifies str s14 (nbyt * 2) ((nbyt + 18) * 2 + 1)"
    by (rule modifies_trans [OF modifies_mono [OF m02] modifies_mono [OF mm]]) simp_all
  have m1415: "modifies s14 s15 ((nbyt + 18) * 2) (Suc ((nbyt + 18) * 2))"
    unfolding s15_def by (rule list_update_modifies)
  have m015: "modifies str s15 (nbyt * 2) ((nbyt + 18) * 2 + 1)"
    by (rule modifies_trans [OF m014 modifies_mono [OF m1415]]) simp_all
  have hex: "\<forall>c. c \<noteq> (nbyt + 18) * 2 \<longrightarrow> s15 ! c = str ! c \<or> ishexdigit (s15 ! c)"
    using hh by (simp add: s15_def hexwrites_def)
  have nul: "s15 ! ((nbyt + 18) * 2) = NUL"
    using room l14 by (simp add: s15_def)
  have oa: "getoctet s15 nbyt = Some LCI_CODE"
    using getoctet_frame [OF mm, of nbyt] getoctet_frame [OF m1415, of nbyt] o2' by simp
  have ob: "getoctet s15 (nbyt + 1) = Some 16"
    using getoctet_frame [OF mm, of "nbyt + 1"] getoctet_frame [OF m1415, of "nbyt + 1"] o2 by simp
  have "fields_hold s15 B [(0, 6, ?LU), (6, 34, Lat), (40, 6, ?LoU), (46, 34, Lon),
        (80, 4, Altitude_Type g3), (84, 6, ?AU), (90, 30, Alt), (120, 3, datum g3),
        (123, 1, RegLoc_Agreement g3), (124, 1, RegLoc_DSE g3), (125, 1, Dependent_STA g3),
        (126, 2, LCI_version g3)]"
    using f12 unfolding fields_hold_def
    by (auto intro!: holds_frame [OF _ m1415] simp: B)
  then have ff: "fields_hold s15 ((nbyt + 2) * 8)
          [(0, 6, chosen_code (latitude_uncertainty g) 8 (smallestflag g) MAX_LCI_UNCERTAINTY),
           (6, 34, Lat),
           (40, 6, chosen_code (longitude_uncertainty g) 8 (smallestflag g) MAX_LCI_UNCERTAINTY),
           (46, 34, Lon),
           (80, 4, Altitude_Type g),
           (84, 6, chosen_code (altitude_uncertainty g) 21 (smallestflag g) MAX_LCI_UNCERTAINTY),
           (90, 30, Alt),
           (120, 3, datum g), (123, 1, RegLoc_Agreement g), (124, 1, RegLoc_DSE g),
           (125, 1, Dependent_STA g), (126, 2, LCI_version g)]"
    by (simp only: B prints_fields [OF pr1] prints_fields [OF pr12] prints_fields [OF pr])
  from main pr m015 hex nul oa ob ff show ?thesis
    unfolding dB by blast
qed

section \<open>The LCI subelement decoder and the uncertainty codes\<close>

lemma fields_hold_getbits:
  "fields_hold str base fs \<Longrightarrow> (off, w, v) \<in> set fs \<Longrightarrow> getbits str (base + off) w = Some (take_bit w v)"
  by (rule getbits_holds) (auto simp: fields_hold_def)

lemma if_pair: "(if c then (a, x) else (b, y)) = (if c then a else b, if c then x else y)"
  by simp


lemma getbits_Some:
  assumes "(a + n + 7) div 8 * 2 \<le> length str"
  shows "\<exists>r. getbits str a n = Some r"
proof -
  have "\<exists>st'. for_loop k d
        (\<lambda>k (res, bt). do {
            b \<leftarrow> getbit str k;
            Some (if b then res OR bt else res, push_bit 1 bt) }) st = Some st'"
    if "(k + d + 7) div 8 * 2 \<le> length str" for k d and st :: "int \<times> int"
    using that
  proof (induction d arbitrary: k st)
    case 0
    then show ?case by simp
  next
    case (Suc d)
    have "(k + 8) div 8 \<le> (k + Suc d + 7) div 8"
      by (rule div_le_mono) simp
    then have "k div 8 + 1 \<le> (k + Suc d + 7) div 8" by simp
    with Suc.prems have "k div 8 * 2 + 1 < length str" by simp
    from getoctet_Some [OF this] obtain b where b: "getbit str k = Some b"
      by (auto simp: getbit_eq)
    from Suc.prems have "(Suc k + d + 7) div 8 * 2 \<le> length str" by simp
    from Suc.IH [OF this] b show ?case
      by (cases st) simp
  qed
  from this [OF assms, of "(0, 1)"] show ?thesis
    by (auto simp: getbits_def)
qed

lemma decodeLCIfield_values:
  assumes b1: "getbits str indx 6 = Some LU"
    and g2: "getbits str (indx + 6) 34 = Some Lat"
    and g3: "getbits str (indx + 40) 6 = Some LoU"
    and g4: "getbits str (indx + 46) 34 = Some Lon"
    and g5: "getbits str (indx + 80) 4 = Some AT"
    and g6: "getbits str (indx + 84) 6 = Some AU"
    and g7: "getbits str (indx + 90) 30 = Some Alt"
    and g8: "getbits str (indx + 120) 3 = Some D"
    and g9: "getbits str (indx + 123) 1 = Some RA"
    and g10: "getbits str (indx + 124) 1 = Some DSE"
    and g11: "getbits str (indx + 125) 1 = Some Dep"
    and g12: "getbits str (indx + 126) 2 = Some V"
  shows "\<exists>g'. decodeLCIfield str indx g = Some (indx + 128, g')
     \<and> latitude_uncertainty g' =
          (if LU = 0 then 0
           else decodebinarydot (if LU > MAX_LCI_UNCERTAINTY then MAX_LCI_UNCERTAINTY else LU) 8)
     \<and> latitude g' = real_of_int (propagate_sign Lat 34) / 2 ^ 25
     \<and> longitude_uncertainty g' =
          (if LoU = 0 then 0
           else decodebinarydot (if LoU > MAX_LCI_UNCERTAINTY then MAX_LCI_UNCERTAINTY else LoU) 8)
     \<and> longitude g' = real_of_int (propagate_sign Lon 34) / 2 ^ 25
     \<and> altitude_uncertainty g' =
          (if AU = 0 then 0
           else decodebinarydot (if AU > MAX_LCI_UNCERTAINTY then MAX_LCI_UNCERTAINTY else AU) 21)
     \<and> altitude g' = real_of_int Alt / 256
     \<and> (LU > MAX_LCI_UNCERTAINTY \<longrightarrow> LatitudeUncertaintyCode LU \<in> set (printed g'))
     \<and> (LoU > MAX_LCI_UNCERTAINTY \<longrightarrow> LongitudeUncertaintyCode LoU \<in> set (printed g'))
     \<and> (AU > MAX_LCI_UNCERTAINTY \<longrightarrow> AltitudeUncertaintyCode AU \<in> set (printed g'))
     \<and> expected_to_move g' = expected_to_move g \<and> sta_floor g' = sta_floor g
     \<and> sta_height_above_floor g' = sta_height_above_floor g
     \<and> sta_height_above_floor_uncertainty g' = sta_height_above_floor_uncertainty g
     \<and> retransmission_allowed g' = retransmission_allowed g
     \<and> retention_expires_present g' = retention_expires_present g
     \<and> STA_location_policy g' = STA_location_policy g \<and> expiration g' = expiration g
     \<and> BSSIDS g' = BSSIDS g \<and> max_bssids g' = max_bssids g"
proof -
  note b2 = g2
  have e3: "indx + 6 + 34 = indx + 40" by simp
  have b3: "getbits str (indx + 6 + 34) 6 = Some LoU" unfolding e3 by (rule g3)
  have e4: "indx + 6 + 34 + 6 = indx + 46" by simp
  have b4: "getbits str (indx + 6 + 34 + 6) 34 = Some Lon" unfolding e4 by (rule g4)
  have e5: "indx + 6 + 34 + 6 + 34 = indx + 80" by simp
  have b5: "getbits str (indx + 6 + 34 + 6 + 34) 4 = Some AT" unfolding e5 by (rule g5)
  have e6: "indx + 6 + 34 + 6 + 34 + 4 = indx + 84" by simp
  have b6: "getbits str (indx + 6 + 34 + 6 + 34 + 4) 6 = Some AU" unfolding e6 by (rule g6)
  have e7: "indx + 6 + 34 + 6 + 34 + 4 + 6 = indx + 90" by simp
  have b7: "getbits str (indx + 6 + 34 + 6 + 34 + 4 + 6) 30 = Some Alt" unfolding e7 by (rule g7)
  have e8: "indx + 6 + 34 + 6 + 34 + 4 + 6 + 30 = indx + 120" by simp
  have b8: "getbits str (indx + 6 + 34 + 6 + 34 + 4 + 6 + 30) 3 = Some D" unfolding e8 by (rule g8)
  have e9: "indx + 6 + 34 + 6 + 34 + 4 + 6 + 30 + 3 = indx + 123" by simp
  have b9: "getbits str (indx + 6 + 34 + 6 + 34 + 4 + 6 + 30 + 3) 1 = Some RA"
    unfolding e9 by (rule g9)
  have e10: "indx + 6 + 34 + 6 + 34 + 4 + 6 + 30 + 3 + 1 = indx + 124" by simp
  have b10: "getbits str (indx + 6 + 34 + 6 + 34 + 4 + 6 + 30 + 3 + 1) 1 = Some DSE"
    unfolding e10 by (rule g10)
  have e11: "indx + 6 + 34 + 6 + 34 + 4 + 6 + 30 + 3 + 1 + 1 = indx + 125" by simp
  have b11: "getbits str (indx + 6 + 34 + 6 + 34 + 4 + 6 + 30 + 3 + 1 + 1) 1 = Some Dep"
    unfolding e11 by (rule g11)
  have e12: "indx + 6 + 34 + 6 + 34 + 4 + 6 + 30 + 3 + 1 + 1 + 1 = indx + 126" by simp
  have b12: "getbits str (indx + 6 + 34 + 6 + 34 + 4 + 6 + 30 + 3 + 1 + 1 + 1) 2 = Some V"
    unfolding e12 by (rule g12)
  have e13: "indx + 6 + 34 + 6 + 34 + 4 + 6 + 30 + 3 + 1 + 1 + 1 + 2 = indx + 128" by simp
  show ?thesis
    unfolding decodeLCIfield_def Let_def
    by (simp only: b1 b2 b3 b4 b5 b6 b7 b8 b9 b10 b11 b12 bind.bind_lunit if_pair prod.case e13)
      (simp add: say_def)
qed

lemma decodeLCIfield_total:
  assumes "(indx + 128 + 7) div 8 * 2 \<le> length str"
  shows "\<exists>LU Lat LoU Lon AT AU Alt D RA DSE Dep V.
      getbits str indx 6 = Some LU \<and> getbits str (indx + 6) 34 = Some Lat
    \<and> getbits str (indx + 40) 6 = Some LoU \<and> getbits str (indx + 46) 34 = Some Lon
    \<and> getbits str (indx + 80) 4 = Some AT \<and> getbits str (indx + 84) 6 = Some AU
    \<and> getbits str (indx + 90) 30 = Some Alt \<and> getbits str (indx + 120) 3 = Some D
    \<and> getbits str (indx + 123) 1 = Some RA \<and> getbits str (indx + 124) 1 = Some DSE
    \<and> getbits str (indx + 125) 1 = Some Dep \<and> getbits str (indx + 126) 2 = Some V"
proof -
  have r: "\<exists>r. getbits str (indx + off) w = Some r" if "off + w \<le> 128" for off w
  proof (rule getbits_Some)
    have "(indx + off + w + 7) div 8 \<le> (indx + 128 + 7) div 8"
      by (rule div_le_mono) (use that in simp)
    with assms show "(indx + off + w + 7) div 8 * 2 \<le> length str" by simp
  qed
  from r [of 0 6] r [of 6 34] r [of 40 6] r [of 46 34] r [of 80 4] r [of 84 6] r [of 90 30]
    r [of 120 3] r [of 123 1] r [of 124 1] r [of 125 1] r [of 126 2]
  show ?thesis by simp
qed

lemma log2_powi: "log2 (2 powi k) = real_of_int k"
proof -
  have "(2::real) powr real_of_int k = 2 powi k"
    by (rule powr_real_of_int') simp_all
  then have "log 2 (2 powi k) = log 2 (2 powr real_of_int k)" by simp
  then show ?thesis by (simp add: log2_def)
qed

lemma binarydot_code_powi:
  assumes "1 \<le> c" "c \<le> 34"
  shows "binarydot_code (2 powi (m - c)) m = c"
proof -
  have pos: "\<not> (2::real) powi (m - c) \<le> 0"
    by (simp add: not_le)
  have "\<lceil>real_of_int (m - c) - 1 / 1000000\<rceil> = m - c"
    by (rule ceiling_unique) simp_all
  with assms pos show ?thesis
    by (simp add: binarydot_code_def encodebinarydot_def Let_def log2_powi)
qed

lemma chosen_code_powi:
  assumes "1 \<le> c" "c \<le> 34"
  shows "chosen_code (2 powi (m - c)) m sm mx = c"
  using binarydot_code_powi [OF assms, of m] by (simp add: chosen_code_def)

lemma take_bit_6_code: "0 \<le> c \<Longrightarrow> c \<le> 34 \<Longrightarrow> take_bit 6 c = (c::int)"
  by (simp add: take_bit_int_eq_self)

lemma encodeLCIfield_codes:
  assumes room: "(nbyt + 18) * 2 < length str" and cd: "casts_defined g"
  shows "\<exists>str' g'. encodeLCIfield str nbyt g = Some (str', nbyt + 18, g')
     \<and> getbits str' ((nbyt + 2) * 8) 6
        = Some (take_bit 6 (chosen_code (latitude_uncertainty g) 8 (smallestflag g) MAX_LCI_UNCERTAINTY))
     \<and> getbits str' ((nbyt + 2) * 8 + 40) 6
        = Some (take_bit 6 (chosen_code (longitude_uncertainty g) 8 (smallestflag g) MAX_LCI_UNCERTAINTY))
     \<and> getbits str' ((nbyt + 2) * 8 + 84) 6
        = Some (take_bit 6 (chosen_code (altitude_uncertainty g) 21 (smallestflag g) MAX_LCI_UNCERTAINTY))"
proof -
  from cd obtain Lat Lon Alt where
    "to_llong (c_round (latitude g * 2 ^ 25)) = Some Lat"
    "to_llong (c_round (longitude g * 2 ^ 25)) = Some Lon"
    "to_int (c_round (altitude g * 2 ^ 8)) = Some Alt"
    by (auto simp: casts_defined_def)
  from encodeLCIfield_spec [OF room this] obtain str' g' where
    e: "encodeLCIfield str nbyt g = Some (str', nbyt + 18, g')"
    and f: "fields_hold str' ((nbyt + 2) * 8)
          [(0, 6, chosen_code (latitude_uncertainty g) 8 (smallestflag g) MAX_LCI_UNCERTAINTY),
           (6, 34, Lat),
           (40, 6, chosen_code (longitude_uncertainty g) 8 (smallestflag g) MAX_LCI_UNCERTAINTY),
           (46, 34, Lon),
           (80, 4, Altitude_Type g),
           (84, 6, chosen_code (altitude_uncertainty g) 21 (smallestflag g) MAX_LCI_UNCERTAINTY),
           (90, 30, Alt),
           (120, 3, datum g), (123, 1, RegLoc_Agreement g), (124, 1, RegLoc_DSE g),
           (125, 1, Dependent_STA g), (126, 2, LCI_version g)]"
    by blast
  note gb = fields_hold_getbits [OF f]
  from e gb [of 0 6 "chosen_code (latitude_uncertainty g) 8 (smallestflag g) MAX_LCI_UNCERTAINTY"]
    gb [of 40 6 "chosen_code (longitude_uncertainty g) 8 (smallestflag g) MAX_LCI_UNCERTAINTY"]
    gb [of 84 6 "chosen_code (altitude_uncertainty g) 21 (smallestflag g) MAX_LCI_UNCERTAINTY"]
  show ?thesis by simp
qed

section \<open>The Z and Usage subelement encoders\<close>

lemma putoctet_spec:
  assumes "nbyt * 2 + 1 < length s" "0 \<le> v" "v < 256"
  shows "\<exists>s'. putoctet s nbyt v = Some s' \<and> modifies s s' (nbyt * 2) (nbyt * 2 + 2)
     \<and> hexwrites s s' \<and> getoctet s' nbyt = Some v \<and> ishexdigit (s' ! (nbyt * 2))"
proof -
  from assms(1) obtain s' where s: "putoctet s nbyt v = Some s'" by (simp add: putoctet_Some)
  from putoctet_modifies [OF s] putoctet_hexwrites [OF s assms(2,3)]
    getoctet_putoctet [OF s assms(2,3)] putoctet_hex [OF s assms(2,3)] s
  show ?thesis by blast
qed

lemma binarydot_code_range: "0 \<le> binarydot_code u m \<and> binarydot_code u m \<le> 34"
  by (simp add: binarydot_code_def encodebinarydot_def Let_def)

lemma chosen_code_range:
  "0 \<le> mx \<Longrightarrow> mx \<le> 34 \<Longrightarrow> 0 \<le> chosen_code u m sm mx \<and> chosen_code u m sm mx \<le> 34"
  using binarydot_code_range [of u m] by (simp add: chosen_code_def)

lemma modifies_nth: "modifies s s' lo hi \<Longrightarrow> i < lo \<or> hi \<le> i \<Longrightarrow> s' ! i = s ! i"
  by (auto simp: modifies_def)

lemma encodeZfield_spec:
  assumes room: "(nbyt + 8) * 2 < length str"
    and fl: "to_int (c_trunc (sta_floor g * 16)) = Some F"
    and ht: "to_int (c_trunc (sta_height_above_floor g * 4096)) = Some H"
  shows "\<exists>str' g'. encodeZfield str nbyt g = Some (str', nbyt + 8, g')
     \<and> prints g g'
     \<and> modifies str str' (nbyt * 2) ((nbyt + 8) * 2 + 1)
     \<and> (\<forall>c. c \<noteq> (nbyt + 8) * 2 \<longrightarrow> str' ! c = str ! c \<or> ishexdigit (str' ! c))
     \<and> str' ! ((nbyt + 8) * 2) = NUL
     \<and> ishexdigit (str' ! (nbyt * 2))
     \<and> getoctet str' nbyt = Some Z_CODE \<and> getoctet str' (nbyt + 1) = Some 6
     \<and> getnumber str' (nbyt + 2) 2
          = Some (take_bit 16 ((expected_to_move g AND 3) OR push_bit 2 F))
     \<and> getnumber str' (nbyt + 4) 3 = Some (take_bit 24 H)
     \<and> getoctet str' (nbyt + 7)
          = Some (if chosen_code (sta_height_above_floor_uncertainty g) 11 (smallestflag g)
                       MAX_Z_UNCERTAINTY > MAX_Z_UNCERTAINTY
                  then MAX_Z_UNCERTAINTY
                  else chosen_code (sta_height_above_floor_uncertainty g) 11 (smallestflag g)
                       MAX_Z_UNCERTAINTY)"
proof -
  let ?C = "chosen_code (sta_height_above_floor_uncertainty g) 11 (smallestflag g)
              MAX_Z_UNCERTAINTY"
  let ?U = "if ?C > MAX_Z_UNCERTAINTY then MAX_Z_UNCERTAINTY else ?C"
  let ?FI = "(expected_to_move g AND 3) OR push_bit 2 F"
  from putoctet_spec [of nbyt str Z_CODE] room obtain s1 where
    s1: "putoctet str nbyt Z_CODE = Some s1"
    and m1: "modifies str s1 (nbyt * 2) (nbyt * 2 + 2)" and h1: "hexwrites str s1"
    and o1: "getoctet s1 nbyt = Some Z_CODE" and x1: "ishexdigit (s1 ! (nbyt * 2))"
    by auto
  have l1: "length s1 = length str" by (rule modifies_length [OF m1])
  from putoctet_spec [of "nbyt + 1" s1 6] room l1 obtain s2 where
    s2: "putoctet s1 (nbyt + 1) 6 = Some s2"
    and m2: "modifies s1 s2 ((nbyt + 1) * 2) ((nbyt + 1) * 2 + 2)" and h2: "hexwrites s1 s2"
    and o2: "getoctet s2 (nbyt + 1) = Some 6"
    by auto
  have l2: "length s2 = length str" using modifies_length [OF m2] l1 by simp
  obtain g1 where e1: "(if sta_height_above_floor_uncertainty g > 0
        then encodebinarydot (sta_height_above_floor_uncertainty g) 11 g
        else if \<not> smallestflag g then (0, g)
        else (MAX_Z_UNCERTAINTY, g)) = (?C, g1)"
    and pr: "prints g g1"
    using chosen_code_prints [of "sta_height_above_floor_uncertainty g" 11 g "smallestflag g"
        MAX_Z_UNCERTAINTY]
    by blast
  from putnumber_spec [of "nbyt + 2" 2 s2 ?FI] room l2 obtain s3 where
    p1: "putnumber s2 (nbyt + 2) 2 ?FI = Some s3"
    and m3: "modifies s2 s3 ((nbyt + 2) * 2) ((nbyt + 2 + 2) * 2)" and h3: "hexwrites s2 s3"
    and n3: "\<forall>j<2. getoctet s3 (nbyt + 2 + j) = Some (drop_bit ((2 - j - 1) * 8) ?FI AND 0xFF)"
    by auto
  have l3: "length s3 = length str" using modifies_length [OF m3] l2 by simp
  from putnumber_spec [of "nbyt + 2 + 2" 3 s3 H] room l3 obtain s4 where
    p2: "putnumber s3 (nbyt + 2 + 2) 3 H = Some s4"
    and m4: "modifies s3 s4 ((nbyt + 2 + 2) * 2) ((nbyt + 2 + 2 + 3) * 2)"
    and h4: "hexwrites s3 s4"
    and n4: "\<forall>j<3. getoctet s4 (nbyt + 2 + 2 + j) = Some (drop_bit ((3 - j - 1) * 8) H AND 0xFF)"
    by auto
  have l4: "length s4 = length str" using modifies_length [OF m4] l3 by simp
  from putnumber_spec [of "nbyt + 2 + 2 + 3" 1 s4 ?U] room l4 obtain s5 where
    p3: "putnumber s4 (nbyt + 2 + 2 + 3) 1 ?U = Some s5"
    and m5: "modifies s4 s5 ((nbyt + 2 + 2 + 3) * 2) ((nbyt + 2 + 2 + 3 + 1) * 2)"
    and h5: "hexwrites s4 s5"
    and n5: "\<forall>j<1. getoctet s5 (nbyt + 2 + 2 + 3 + j) = Some (drop_bit ((1 - j - 1) * 8) ?U AND 0xFF)"
    by auto
  have l5: "length s5 = length str" using modifies_length [OF m5] l4 by simp
  define s6 where "s6 = s5[(nbyt + 2 + 2 + 3 + 1) * 2 := NUL]"
  have w: "wr s5 ((nbyt + 2 + 2 + 3 + 1) * 2) NUL = Some s6"
    unfolding s6_def using room l5 by (simp add: wr_Some)
  have m6: "modifies s5 s6 ((nbyt + 2 + 2 + 3 + 1) * 2) (Suc ((nbyt + 2 + 2 + 3 + 1) * 2))"
    unfolding s6_def by (rule list_update_modifies)
  have main: "encodeZfield str nbyt g = Some (s6, nbyt + 2 + 2 + 3 + 1, g1)"
    unfolding encodeZfield_def Let_def
    by (simp only: s1 s2 fl ht e1 p1 p2 p3 w bind.bind_lunit prod.case)
  have m56: "modifies s5 s6 ((nbyt + 8) * 2) ((nbyt + 8) * 2 + 1)"
    by (rule modifies_mono [OF m6]) simp_all
  have m46: "modifies s4 s6 ((nbyt + 7) * 2) ((nbyt + 8) * 2 + 1)"
    by (rule modifies_trans [OF modifies_mono [OF m5] modifies_mono [OF m56]]) simp_all
  have m36: "modifies s3 s6 ((nbyt + 4) * 2) ((nbyt + 8) * 2 + 1)"
    by (rule modifies_trans [OF modifies_mono [OF m4] modifies_mono [OF m46]]) simp_all
  have m26: "modifies s2 s6 ((nbyt + 2) * 2) ((nbyt + 8) * 2 + 1)"
    by (rule modifies_trans [OF modifies_mono [OF m3] modifies_mono [OF m36]]) simp_all
  have m16: "modifies s1 s6 ((nbyt + 1) * 2) ((nbyt + 8) * 2 + 1)"
    by (rule modifies_trans [OF modifies_mono [OF m2] modifies_mono [OF m26]]) simp_all
  have m06: "modifies str s6 (nbyt * 2) ((nbyt + 8) * 2 + 1)"
    by (rule modifies_trans [OF modifies_mono [OF m1] modifies_mono [OF m16]]) simp_all
  have hh: "hexwrites str s5"
    by (intro hexwrites_trans [OF h1] hexwrites_trans [OF h2] hexwrites_trans [OF h3]
        hexwrites_trans [OF h4] h5)
  have hex: "\<forall>c. c \<noteq> (nbyt + 8) * 2 \<longrightarrow> s6 ! c = str ! c \<or> ishexdigit (s6 ! c)"
    using hh by (simp add: s6_def hexwrites_def)
  have nul: "s6 ! ((nbyt + 8) * 2) = NUL"
    using room l5 by (simp add: s6_def add.commute)
  have first: "ishexdigit (s6 ! (nbyt * 2))"
    using modifies_nth [OF m16, of "nbyt * 2"] x1 by simp
  have oa: "getoctet s6 nbyt = Some Z_CODE"
    using getoctet_frame [OF m16, of nbyt] o1 by simp
  have ob: "getoctet s6 (nbyt + 1) = Some 6"
    using getoctet_frame [OF m26, of "nbyt + 1"] o2 by simp
  have na: "getnumber s6 (nbyt + 2) 2 = Some (take_bit (2 * 8) ?FI)"
  proof (rule getnumber_spec)
    fix j :: nat assume j: "j < 2"
    from j n3 have "getoctet s3 (nbyt + 2 + j) = Some (drop_bit ((2 - j - 1) * 8) ?FI AND 0xFF)"
      by blast
    moreover from j have "getoctet s6 (nbyt + 2 + j) = getoctet s3 (nbyt + 2 + j)"
      by (intro getoctet_frame [OF m36]) simp
    ultimately show "getoctet s6 (nbyt + 2 + j) = Some (drop_bit ((2 - j - 1) * 8) ?FI AND 0xFF)"
      by simp
  qed
  have nb: "getnumber s6 (nbyt + 4) 3 = Some (take_bit (3 * 8) H)"
  proof (rule getnumber_spec)
    fix j :: nat assume j: "j < 3"
    from j n4 have "getoctet s4 (nbyt + 2 + 2 + j) = Some (drop_bit ((3 - j - 1) * 8) H AND 0xFF)"
      by blast
    moreover from j have "getoctet s6 (nbyt + 2 + 2 + j) = getoctet s4 (nbyt + 2 + 2 + j)"
      by (intro getoctet_frame [OF m46]) simp
    ultimately have "getoctet s6 (nbyt + 2 + 2 + j) = Some (drop_bit ((3 - j - 1) * 8) H AND 0xFF)"
      by (simp only:)
    moreover have "nbyt + 2 + 2 + j = nbyt + 4 + j" by simp
    ultimately show "getoctet s6 (nbyt + 4 + j) = Some (drop_bit ((3 - j - 1) * 8) H AND 0xFF)"
      by (simp only:)
  qed
  define U where "U = ?U"
  have ur: "0 \<le> U \<and> U < 256"
    using chosen_code_range [of MAX_Z_UNCERTAINTY "sta_height_above_floor_uncertainty g" 11
        "smallestflag g"] by (simp add: U_def)
  from n5 have a: "getoctet s5 (nbyt + 7) = Some (U AND 0xFF)"
    by (simp add: U_def ac_simps)
  have b: "U AND 0xFF = U"
    using ur and_255 [of U] by (simp add: take_bit_int_eq_self)
  have d: "getoctet s6 (nbyt + 7) = getoctet s5 (nbyt + 7)"
    by (intro getoctet_frame [OF m56]) simp
  from a b d have "getoctet s6 (nbyt + 7) = Some U" by (simp only:)
  then have nc: "getoctet s6 (nbyt + 7) = Some ?U" by (simp only: U_def)
  from main pr m06 hex nul first oa ob na nb nc show ?thesis
    by (simp add: add.assoc)
qed

lemma usage_reconcile:
  "\<exists>g1. (if retention_expires_present g \<noteq> 0 then
          (if expiration g = 0
           then (1, (say RetentionWithoutExpiration g)\<lparr>retention_expires_present := 0\<rparr>)
           else (if retention_expires_present g \<noteq> 0 then 3 else 1 :: int, g))
        else
          (if expiration g \<noteq> 0
           then (3, (say ExpirationWithoutRetention g)\<lparr>retention_expires_present := 1\<rparr>)
           else (if retention_expires_present g \<noteq> 0 then 3 else 1 :: int, g)))
      = (if expiration g = 0 then 1 else 3, g1)
    \<and> g1 = reconciled g
    \<and> (retention_expires_present g1 \<noteq> 0 \<longleftrightarrow> expiration g \<noteq> 0)
    \<and> expiration g1 = expiration g
    \<and> retransmission_allowed g1 OR push_bit 1 (retention_expires_present g1)
         OR push_bit 2 (STA_location_policy g1) = usage_parameters g"
  by (simp add: usage_parameters_def reconciled_def say_def)

lemma encodeUsageField_spec:
  assumes room: "(nbyt + 5) * 2 < length str"
  shows "\<exists>str'. encodeUsageField str nbyt g = Some (str', nbyt + usage_octets g, reconciled g)
     \<and> modifies str str' (nbyt * 2) ((nbyt + usage_octets g) * 2 + 1)
     \<and> str' ! ((nbyt + usage_octets g) * 2) = NUL
     \<and> ishexdigit (str' ! (nbyt * 2))
     \<and> getoctet str' nbyt = Some USAGE_CODE
     \<and> getoctet str' (nbyt + 1) = Some (int (usage_octets g) - 2)
     \<and> (expiration g \<noteq> 0 \<longrightarrow> getnumber str' (nbyt + 3) 2 = Some (take_bit 16 (expiration g)))
     \<and> (0 \<le> usage_parameters g \<and> usage_parameters g < 256 \<longrightarrow>
          getoctet str' (nbyt + 2) = Some (usage_parameters g)
        \<and> (\<forall>c. c \<noteq> (nbyt + usage_octets g) * 2 \<longrightarrow> str' ! c = str ! c \<or> ishexdigit (str' ! c)))"
proof -
  let ?n = "if expiration g = 0 then 1 else 3 :: int"
  define d :: nat where "d = (if expiration g = 0 then 0 else 2)"
  have uo: "usage_octets g = 3 + d" by (simp add: usage_octets_def d_def)
  from usage_reconcile [of g] obtain g1 where
    e1: "(if retention_expires_present g \<noteq> 0 then
          (if expiration g = 0
           then (1, (say RetentionWithoutExpiration g)\<lparr>retention_expires_present := 0\<rparr>)
           else (if retention_expires_present g \<noteq> 0 then 3 else 1 :: int, g))
        else
          (if expiration g \<noteq> 0
           then (3, (say ExpirationWithoutRetention g)\<lparr>retention_expires_present := 1\<rparr>)
           else (if retention_expires_present g \<noteq> 0 then 3 else 1 :: int, g)))
      = (?n, g1)"
    and gr: "g1 = reconciled g"
    and r1: "retention_expires_present g1 \<noteq> 0 \<longleftrightarrow> expiration g \<noteq> 0"
    and x1: "expiration g1 = expiration g"
    and p1: "retransmission_allowed g1 OR push_bit 1 (retention_expires_present g1)
         OR push_bit 2 (STA_location_policy g1) = usage_parameters g"
    by blast
  from putoctet_spec [of nbyt str USAGE_CODE] room obtain s1 where
    s1: "putoctet str nbyt USAGE_CODE = Some s1"
    and m1: "modifies str s1 (nbyt * 2) (nbyt * 2 + 2)" and h1: "hexwrites str s1"
    and o1: "getoctet s1 nbyt = Some USAGE_CODE" and c1: "ishexdigit (s1 ! (nbyt * 2))"
    by auto
  have l1: "length s1 = length str" by (rule modifies_length [OF m1])
  have nr: "0 \<le> ?n" "?n < 256" by simp_all
  have "(nbyt + 1) * 2 + 1 < length s1" using room l1 by simp
  from putoctet_spec [OF this nr] obtain s2 where
    s2: "putoctet s1 (nbyt + 1) ?n = Some s2"
    and m2: "modifies s1 s2 ((nbyt + 1) * 2) ((nbyt + 1) * 2 + 2)" and h2: "hexwrites s1 s2"
    and o2: "getoctet s2 (nbyt + 1) = Some ?n"
    by blast
  have l2: "length s2 = length str" using modifies_length [OF m2] l1 by simp
  from room l2 obtain s3 where
    s3: "putoctet s2 (nbyt + 2) (usage_parameters g) = Some s3"
    by (simp add: putoctet_Some)
  have m3: "modifies s2 s3 ((nbyt + 2) * 2) ((nbyt + 2) * 2 + 2)"
    by (rule putoctet_modifies [OF s3])
  have h3: "hexwrites s2 s3" if "0 \<le> usage_parameters g \<and> usage_parameters g < 256"
    using putoctet_hexwrites [OF s3] that by simp
  have o3: "getoctet s3 (nbyt + 2) = Some (usage_parameters g)"
    if "0 \<le> usage_parameters g \<and> usage_parameters g < 256"
    using getoctet_putoctet [OF s3] that by simp
  have l3: "length s3 = length str" using modifies_length [OF m3] l2 by simp
  have "\<exists>s4. (if retention_expires_present g1 \<noteq> 0
        then do { str \<leftarrow> putnumber s3 (nbyt + 2 + 1) 2 (expiration g1);
                  Some (str, nbyt + 2 + 1 + 2) }
        else Some (s3, nbyt + 2 + 1)) = Some (s4, nbyt + 2 + 1 + d)
      \<and> modifies s3 s4 ((nbyt + 3) * 2) ((nbyt + 3 + d) * 2) \<and> hexwrites s3 s4
      \<and> (expiration g \<noteq> 0 \<longrightarrow>
           (\<forall>j<2. getoctet s4 (nbyt + 3 + j)
               = Some (drop_bit ((2 - j - 1) * 8) (expiration g) AND 0xFF)))"
  proof (cases "expiration g = 0")
    case True
    then show ?thesis using r1 by (simp add: d_def modifies_refl hexwrites_refl)
  next
    case False
    from putnumber_spec [of "nbyt + 2 + 1" 2 s3 "expiration g1"] room l3 obtain s4 where
      a: "putnumber s3 (nbyt + 2 + 1) 2 (expiration g1) = Some s4"
      and b: "modifies s3 s4 ((nbyt + 2 + 1) * 2) ((nbyt + 2 + 1 + 2) * 2)"
      and c: "hexwrites s3 s4"
      and e: "\<forall>j<2. getoctet s4 (nbyt + 2 + 1 + j)
               = Some (drop_bit ((2 - j - 1) * 8) (expiration g1) AND 0xFF)"
      by auto
    have mm: "modifies s3 s4 ((nbyt + 3) * 2) ((nbyt + 3 + d) * 2)"
      by (rule modifies_mono [OF b]) (simp_all add: d_def False)
    have eq: "nbyt + 2 + 1 = nbyt + 3" by simp
    note e' = e [unfolded eq x1]
    show ?thesis using False r1 a c mm e' by (simp add: d_def)
  qed
  then obtain s4 where
    s4: "(if retention_expires_present g1 \<noteq> 0
        then do { str \<leftarrow> putnumber s3 (nbyt + 2 + 1) 2 (expiration g1);
                  Some (str, nbyt + 2 + 1 + 2) }
        else Some (s3, nbyt + 2 + 1)) = Some (s4, nbyt + 2 + 1 + d)"
    and m4: "modifies s3 s4 ((nbyt + 3) * 2) ((nbyt + 3 + d) * 2)" and h4: "hexwrites s3 s4"
    and n4: "expiration g \<noteq> 0 \<longrightarrow>
           (\<forall>j<2. getoctet s4 (nbyt + 3 + j)
               = Some (drop_bit ((2 - j - 1) * 8) (expiration g) AND 0xFF))"
    by blast
  have l4: "length s4 = length str" using modifies_length [OF m4] l3 by simp
  have dle: "d \<le> 2" by (simp add: d_def)
  have idx: "(nbyt + 2 + 1 + d) * 2 = (nbyt + 3 + d) * 2" by simp
  define s5 where "s5 = s4[(nbyt + 3 + d) * 2 := NUL]"
  have w: "wr s4 ((nbyt + 2 + 1 + d) * 2) NUL = Some s5"
    unfolding s5_def idx using room l4 dle by (simp add: wr_Some)
  have m5: "modifies s4 s5 ((nbyt + 3 + d) * 2) (Suc ((nbyt + 3 + d) * 2))"
    unfolding s5_def by (rule list_update_modifies)
  have main: "encodeUsageField str nbyt g = Some (s5, nbyt + 2 + 1 + d, g1)"
    unfolding encodeUsageField_def Let_def
    by (simp only: e1 s1 s2 p1 s3 s4 w bind.bind_lunit prod.case)
  have m45: "modifies s4 s5 ((nbyt + 3 + d) * 2) ((nbyt + 3 + d) * 2 + 1)"
    by (rule modifies_mono [OF m5]) simp_all
  have m35: "modifies s3 s5 ((nbyt + 3) * 2) ((nbyt + 3 + d) * 2 + 1)"
    by (rule modifies_trans [OF modifies_mono [OF m4] modifies_mono [OF m45]]) simp_all
  have m25: "modifies s2 s5 ((nbyt + 2) * 2) ((nbyt + 3 + d) * 2 + 1)"
    by (rule modifies_trans [OF modifies_mono [OF m3] modifies_mono [OF m35]]) simp_all
  have m15: "modifies s1 s5 ((nbyt + 1) * 2) ((nbyt + 3 + d) * 2 + 1)"
    by (rule modifies_trans [OF modifies_mono [OF m2] modifies_mono [OF m25]]) simp_all
  have m05: "modifies str s5 (nbyt * 2) ((nbyt + 3 + d) * 2 + 1)"
    by (rule modifies_trans [OF modifies_mono [OF m1] modifies_mono [OF m15]]) simp_all
  have nul: "s5 ! ((nbyt + 3 + d) * 2) = NUL"
    using room l4 dle by (simp add: s5_def)
  have first: "ishexdigit (s5 ! (nbyt * 2))"
    using modifies_nth [OF m15, of "nbyt * 2"] c1 by simp
  have oa: "getoctet s5 nbyt = Some USAGE_CODE"
    using getoctet_frame [OF m15, of nbyt] o1 by simp
  have ob: "getoctet s5 (nbyt + 1) = Some (int (3 + d) - 2)"
    using getoctet_frame [OF m25, of "nbyt + 1"] o2 by (simp add: d_def)
  have oc: "getoctet s5 (nbyt + 2) = Some (usage_parameters g)"
    if "0 \<le> usage_parameters g \<and> usage_parameters g < 256"
    using getoctet_frame [OF m35, of "nbyt + 2"] o3 [OF that] by simp
  have od: "getnumber s5 (nbyt + 3) 2 = Some (take_bit (2 * 8) (expiration g))"
    if x: "expiration g \<noteq> 0"
  proof (rule getnumber_spec)
    fix j :: nat assume j: "j < 2"
    from j n4 x have "getoctet s4 (nbyt + 3 + j)
        = Some (drop_bit ((2 - j - 1) * 8) (expiration g) AND 0xFF)"
      by blast
    moreover from j x have "getoctet s5 (nbyt + 3 + j) = getoctet s4 (nbyt + 3 + j)"
      by (intro getoctet_frame [OF m45]) (simp add: d_def)
    ultimately show "getoctet s5 (nbyt + 3 + j)
        = Some (drop_bit ((2 - j - 1) * 8) (expiration g) AND 0xFF)"
      by (simp only:)
  qed
  have hex: "\<forall>c. c \<noteq> (nbyt + 3 + d) * 2 \<longrightarrow> s5 ! c = str ! c \<or> ishexdigit (s5 ! c)"
    if "0 \<le> usage_parameters g \<and> usage_parameters g < 256"
  proof -
    have "hexwrites str s4"
      by (intro hexwrites_trans [OF h1] hexwrites_trans [OF h2] hexwrites_trans [OF h3 [OF that]] h4)
    then show ?thesis by (simp add: s5_def hexwrites_def)
  qed
  have e: "nbyt + 2 + 1 + d = nbyt + (3 + d)" by simp
  from main [unfolded gr] m05 nul first oa ob oc od hex show ?thesis
    unfolding uo e by (simp only: add.assoc) (simp add: add.assoc)
qed

section \<open>The Colocated-BSSID subelement encoder\<close>

lemma copy_loop:
  assumes "(nbyt + d) * 2 \<le> length str"
    and "\<forall>j. k \<le> j \<and> j < k + d \<longrightarrow> ishexdigit (f j) \<and> ishexdigit (h j)"
  shows "\<exists>str'. for_loop k d (\<lambda>k (str, nbyt). do {
             str \<leftarrow> wr str (nbyt * 2) (f k);
             str \<leftarrow> wr str (nbyt * 2 + 1) (h k);
             Some (str, nbyt + 1) }) (str, nbyt) = Some (str', nbyt + d)
      \<and> modifies str str' (nbyt * 2) ((nbyt + d) * 2) \<and> hexwrites str str'"
  using assms
proof (induction d arbitrary: k str nbyt)
  case 0
  then show ?case by (simp add: modifies_refl hexwrites_refl)
next
  case (Suc d)
  define s1 where "s1 = str[nbyt * 2 := f k, nbyt * 2 + 1 := h k]"
  have l1: "length s1 = length str" by (simp add: s1_def)
  have m1: "modifies str s1 (nbyt * 2) (nbyt * 2 + 2)"
    by (auto simp: modifies_def s1_def)
  have fh: "ishexdigit (f k) \<and> ishexdigit (h k)" using Suc.prems(2) by simp
  have h1: "hexwrites str s1"
    using fh Suc.prems(1) by (auto simp: hexwrites_def s1_def nth_list_update)
  have "(nbyt + 1 + d) * 2 \<le> length s1" using Suc.prems(1) l1 by simp
  moreover have "\<forall>j. Suc k \<le> j \<and> j < Suc k + d \<longrightarrow> ishexdigit (f j) \<and> ishexdigit (h j)"
    using Suc.prems(2) by simp
  ultimately obtain s' where
    s': "for_loop (Suc k) d (\<lambda>k (str, nbyt). do {
             str \<leftarrow> wr str (nbyt * 2) (f k);
             str \<leftarrow> wr str (nbyt * 2 + 1) (h k);
             Some (str, nbyt + 1) }) (s1, nbyt + 1) = Some (s', nbyt + 1 + d)"
    and m': "modifies s1 s' ((nbyt + 1) * 2) ((nbyt + 1 + d) * 2)" and h': "hexwrites s1 s'"
    using Suc.IH [of "nbyt + 1" s1 "Suc k"] by blast
  have step: "do { str \<leftarrow> wr str (nbyt * 2) (f k);
                   str \<leftarrow> wr str (nbyt * 2 + 1) (h k);
                   Some (str, nbyt + 1) } = Some (s1, nbyt + 1)"
    using Suc.prems(1) by (simp add: wr_def s1_def)
  have e: "nbyt + 1 + d = nbyt + Suc d" by simp
  have "for_loop k (Suc d) (\<lambda>k (str, nbyt). do {
             str \<leftarrow> wr str (nbyt * 2) (f k);
             str \<leftarrow> wr str (nbyt * 2 + 1) (h k);
             Some (str, nbyt + 1) }) (str, nbyt) = Some (s', nbyt + Suc d)"
    by (simp only: for_loop.simps prod.case step bind.bind_lunit s' e)
  moreover have "modifies str s' (nbyt * 2) ((nbyt + Suc d) * 2)"
    by (rule modifies_trans [OF modifies_mono [OF m1] modifies_mono [OF m']]) simp_all
  moreover have "hexwrites str s'" by (rule hexwrites_trans [OF h1 h'])
  ultimately show ?case by blast
qed

lemma placeBSSID_spec:
  assumes room: "(nbyt + 6) * 2 \<le> length str" and v: "isValidBSSID b"
  shows "\<exists>str'. placeBSSID str nbyt b g = Some (str', nbyt + 6, g)
     \<and> modifies str str' (nbyt * 2) ((nbyt + 6) * 2) \<and> hexwrites str str'"
proof (cases "length b = 6 * 3 - 1")
  case True
  with v have "\<forall>j. 0 \<le> j \<and> j < 0 + 6 \<longrightarrow> ishexdigit (b ! (j * 3)) \<and> ishexdigit (b ! (j * 3 + 1))"
    by (simp add: isValidBSSID_def mult.commute)
  from copy_loop [OF room this] True show ?thesis
    by (auto simp: placeBSSID_def)
next
  case False
  with v have l: "length b = 6 * 2" by (simp add: isValidBSSID_def split: if_splits)
  with v have "\<forall>j. 0 \<le> j \<and> j < 0 + 6 \<longrightarrow> ishexdigit (b ! (j * 2)) \<and> ishexdigit (b ! (j * 2 + 1))"
    by (simp add: isValidBSSID_def mult.commute)
  from copy_loop [OF room this] l show ?thesis
    by (auto simp: placeBSSID_def)
qed

lemma placeBSSID_loop:
  assumes "(nbyt + 6 * d) * 2 \<le> length str"
    and "\<forall>j. k \<le> j \<and> j < k + d \<longrightarrow> isValidBSSID (BSSIDS g ! j)"
  shows "\<exists>str'. for_loop k d (\<lambda>k (str, nbyt, g). placeBSSID str nbyt (BSSIDS g ! k) g)
            (str, nbyt, g) = Some (str', nbyt + 6 * d, g)
      \<and> modifies str str' (nbyt * 2) ((nbyt + 6 * d) * 2) \<and> hexwrites str str'"
  using assms
proof (induction d arbitrary: k str nbyt)
  case 0
  then show ?case by (simp add: modifies_refl hexwrites_refl)
next
  case (Suc d)
  have "(nbyt + 6) * 2 \<le> length str" using Suc.prems(1) by simp
  moreover have "isValidBSSID (BSSIDS g ! k)" using Suc.prems(2) by simp
  ultimately obtain s1 where
    s1: "placeBSSID str nbyt (BSSIDS g ! k) g = Some (s1, nbyt + 6, g)"
    and m1: "modifies str s1 (nbyt * 2) ((nbyt + 6) * 2)" and h1: "hexwrites str s1"
    using placeBSSID_spec by blast
  have l1: "length s1 = length str" by (rule modifies_length [OF m1])
  have "(nbyt + 6 + 6 * d) * 2 \<le> length s1" using Suc.prems(1) l1 by simp
  moreover have "\<forall>j. Suc k \<le> j \<and> j < Suc k + d \<longrightarrow> isValidBSSID (BSSIDS g ! j)"
    using Suc.prems(2) by simp
  ultimately obtain s' where
    s': "for_loop (Suc k) d (\<lambda>k (str, nbyt, g). placeBSSID str nbyt (BSSIDS g ! k) g)
            (s1, nbyt + 6, g) = Some (s', nbyt + 6 + 6 * d, g)"
    and m': "modifies s1 s' ((nbyt + 6) * 2) ((nbyt + 6 + 6 * d) * 2)" and h': "hexwrites s1 s'"
    using Suc.IH [of "nbyt + 6" s1 "Suc k"] by blast
  have e: "nbyt + 6 + 6 * d = nbyt + 6 * Suc d" by simp
  have "for_loop k (Suc d) (\<lambda>k (str, nbyt, g). placeBSSID str nbyt (BSSIDS g ! k) g)
            (str, nbyt, g) = Some (s', nbyt + 6 * Suc d, g)"
    by (simp only: for_loop.simps prod.case s1 bind.bind_lunit s' e)
  moreover have "modifies str s' (nbyt * 2) ((nbyt + 6 * Suc d) * 2)"
    by (rule modifies_trans [OF modifies_mono [OF m1] modifies_mono [OF m']]) simp_all
  moreover have "hexwrites str s'" by (rule hexwrites_trans [OF h1 h'])
  ultimately show ?case by blast
qed

lemma encodeColocatedBSSID_spec:
  assumes room: "(nbyt + 3 + 6 * length (BSSIDS g)) * 2 < length str"
    and N: "BSSIDS g \<noteq> []" "length (BSSIDS g) \<le> 42"
    and valid: "\<forall>b \<in> set (BSSIDS g). isValidBSSID b"
  shows "\<exists>str'. encodeColocatedBSSID str nbyt (length (BSSIDS g)) g
        = Some (str', nbyt + 3 + 6 * length (BSSIDS g), g)
     \<and> modifies str str' (nbyt * 2) ((nbyt + 3 + 6 * length (BSSIDS g)) * 2 + 1)
     \<and> (\<forall>c. c \<noteq> (nbyt + 3 + 6 * length (BSSIDS g)) * 2 \<longrightarrow>
            str' ! c = str ! c \<or> ishexdigit (str' ! c))
     \<and> str' ! ((nbyt + 3 + 6 * length (BSSIDS g)) * 2) = NUL
     \<and> ishexdigit (str' ! (nbyt * 2))
     \<and> getoctet str' nbyt = Some COLOCATED_BSSID
     \<and> getoctet str' (nbyt + 1) = Some (int (length (BSSIDS g)) * 6 + 1)
     \<and> getoctet str' (nbyt + 2) = Some (int (length (BSSIDS g)))"
proof -
  define N where "N = length (BSSIDS g)"
  have Npos: "0 < N" and N42: "N \<le> 42" using N by (simp_all add: N_def)
  note room' = room [folded N_def]
  from putoctet_spec [of nbyt str COLOCATED_BSSID] room' obtain s1 where
    s1: "putoctet str nbyt COLOCATED_BSSID = Some s1"
    and m1: "modifies str s1 (nbyt * 2) (nbyt * 2 + 2)" and h1: "hexwrites str s1"
    and o1: "getoctet s1 nbyt = Some COLOCATED_BSSID" and c1: "ishexdigit (s1 ! (nbyt * 2))"
    by auto
  have l1: "length s1 = length str" by (rule modifies_length [OF m1])
  have r2: "0 \<le> int N * 6 + 1" "int N * 6 + 1 < 256" using N42 by simp_all
  have "(nbyt + 1) * 2 + 1 < length s1" using room' l1 by simp
  from putoctet_spec [OF this r2] obtain s2 where
    s2: "putoctet s1 (nbyt + 1) (int N * 6 + 1) = Some s2"
    and m2: "modifies s1 s2 ((nbyt + 1) * 2) ((nbyt + 1) * 2 + 2)" and h2: "hexwrites s1 s2"
    and o2: "getoctet s2 (nbyt + 1) = Some (int N * 6 + 1)"
    by blast
  have l2: "length s2 = length str" using modifies_length [OF m2] l1 by simp
  have r3: "0 \<le> int N" "int N < 256" using N42 by simp_all
  have "(nbyt + 2) * 2 + 1 < length s2" using room' l2 by simp
  from putoctet_spec [OF this r3] obtain s3 where
    s3: "putoctet s2 (nbyt + 2) (int N) = Some s3"
    and m3: "modifies s2 s3 ((nbyt + 2) * 2) ((nbyt + 2) * 2 + 2)" and h3: "hexwrites s2 s3"
    and o3: "getoctet s3 (nbyt + 2) = Some (int N)"
    by blast
  have l3: "length s3 = length str" using modifies_length [OF m3] l2 by simp
  have "(nbyt + 3 + 6 * N) * 2 \<le> length s3" using room' l3 by simp
  moreover have "\<forall>j. 0 \<le> j \<and> j < 0 + N \<longrightarrow> isValidBSSID (BSSIDS g ! j)"
    using valid by (simp add: N_def)
  ultimately obtain s4 where
    s4: "for_loop 0 N (\<lambda>k (str, nbyt, g). placeBSSID str nbyt (BSSIDS g ! k) g)
            (s3, nbyt + 3, g) = Some (s4, nbyt + 3 + 6 * N, g)"
    and m4: "modifies s3 s4 ((nbyt + 3) * 2) ((nbyt + 3 + 6 * N) * 2)" and h4: "hexwrites s3 s4"
    using placeBSSID_loop [of "nbyt + 3" N s3 0 g] by blast
  have l4: "length s4 = length str" using modifies_length [OF m4] l3 by simp
  define s5 where "s5 = s4[(nbyt + 3 + 6 * N) * 2 := NUL]"
  have w: "wr s4 ((nbyt + 3 + 6 * N) * 2) NUL = Some s5"
    unfolding s5_def using room' l4 by (simp add: wr_Some)
  have m5: "modifies s4 s5 ((nbyt + 3 + 6 * N) * 2) (Suc ((nbyt + 3 + 6 * N) * 2))"
    unfolding s5_def by (rule list_update_modifies)
  have ne: "length (BSSIDS g) \<noteq> 0" using N by simp
  have main: "encodeColocatedBSSID str nbyt N g = Some (s5, nbyt + 3 + 6 * N, g)"
    unfolding encodeColocatedBSSID_def Let_def N_def [symmetric]
    using Npos by (simp only: s1 s2 s3 s4 w bind.bind_lunit prod.case) simp
  have m45: "modifies s4 s5 ((nbyt + 3 + 6 * N) * 2) ((nbyt + 3 + 6 * N) * 2 + 1)"
    by (rule modifies_mono [OF m5]) simp_all
  have m35: "modifies s3 s5 ((nbyt + 3) * 2) ((nbyt + 3 + 6 * N) * 2 + 1)"
    by (rule modifies_trans [OF modifies_mono [OF m4] modifies_mono [OF m45]]) simp_all
  have m25: "modifies s2 s5 ((nbyt + 2) * 2) ((nbyt + 3 + 6 * N) * 2 + 1)"
    by (rule modifies_trans [OF modifies_mono [OF m3] modifies_mono [OF m35]]) simp_all
  have m15: "modifies s1 s5 ((nbyt + 1) * 2) ((nbyt + 3 + 6 * N) * 2 + 1)"
    by (rule modifies_trans [OF modifies_mono [OF m2] modifies_mono [OF m25]]) simp_all
  have m05: "modifies str s5 (nbyt * 2) ((nbyt + 3 + 6 * N) * 2 + 1)"
    by (rule modifies_trans [OF modifies_mono [OF m1] modifies_mono [OF m15]]) simp_all
  have hh: "hexwrites str s4"
    by (intro hexwrites_trans [OF h1] hexwrites_trans [OF h2] hexwrites_trans [OF h3] h4)
  have hex: "\<forall>c. c \<noteq> (nbyt + 3 + 6 * N) * 2 \<longrightarrow> s5 ! c = str ! c \<or> ishexdigit (s5 ! c)"
    using hh by (simp add: s5_def hexwrites_def)
  have nul: "s5 ! ((nbyt + 3 + 6 * N) * 2) = NUL"
    using room' l4 by (simp add: s5_def)
  have first: "ishexdigit (s5 ! (nbyt * 2))"
    using modifies_nth [OF m15, of "nbyt * 2"] c1 by simp
  have oa: "getoctet s5 nbyt = Some COLOCATED_BSSID"
    using getoctet_frame [OF m15, of nbyt] o1 by simp
  have ob: "getoctet s5 (nbyt + 1) = Some (int N * 6 + 1)"
    using getoctet_frame [OF m25, of "nbyt + 1"] o2 by simp
  have oc: "getoctet s5 (nbyt + 2) = Some (int N)"
    using getoctet_frame [OF m35, of "nbyt + 2"] o3 by simp
  from main m05 hex nul first oa ob oc show ?thesis
    unfolding N_def by blast
qed


section \<open>The container\<close>

lemma prints_if_say: "prints a b \<Longrightarrow> prints a (if c then say d b else b)"
  by (auto intro: prints_trans prints_say)

lemma checksettings_prints: "prints g (checksettings g)"
  unfolding checksettings_def Let_def
  by (intro prints_if_say prints_refl)

lemma for_loop_cong:
  "(\<And>j s. k \<le> j \<Longrightarrow> j < k + d \<Longrightarrow> body j s = body' j s) \<Longrightarrow>
   for_loop k d body s = for_loop k d body' s"
proof (induction d arbitrary: k s)
  case 0
  show ?case by simp
next
  case (Suc d)
  have "body k s = body' k s" using Suc.prems by simp
  moreover have "for_loop (Suc k) d body = for_loop (Suc k) d body'"
    by (rule ext, rule Suc.IH) (simp add: Suc.prems)
  ultimately show ?case by (simp only: for_loop.simps)
qed

lemma getnumber_frame:
  assumes "modifies s s' lo hi" "(n + d) * 2 \<le> lo"
  shows "getnumber s' n d = getnumber s n d"
  unfolding getnumber_def
proof (rule for_loop_cong)
  fix j :: nat and r :: int
  assume "n \<le> j" "j < n + d"
  with assms(2) have "getoctet s' j = getoctet s j"
    by (intro getoctet_frame [OF assms(1)]) simp
  then show "do { oct \<leftarrow> getoctet s' j; Some (push_bit 8 r OR oct) }
      = do { oct \<leftarrow> getoctet s j; Some (push_bit 8 r OR oct) }"
    by simp
qed

lemma fields_hold_frame:
  assumes "fields_hold s b fs" "modifies s s' lo hi"
    and "\<forall>(off, w, v) \<in> set fs. (b + off + w + 7) div 8 * 2 \<le> lo"
  shows "fields_hold s' b fs"
  using assms unfolding fields_hold_def
  by (auto intro: holds_frame)

lemma lci_content_frame:
  assumes "lci_content s p g" "modifies s s' lo hi" "(p + 18) * 2 \<le> lo"
  shows "lci_content s' p g"
proof -
  have a: "getoctet s' p = getoctet s p"
    by (rule getoctet_frame [OF assms(2)]) (use assms(3) in simp)
  have b: "getoctet s' (p + 1) = getoctet s (p + 1)"
    by (rule getoctet_frame [OF assms(2)]) (use assms(3) in simp)
  have f: "fields_hold s ((p + 2) * 8) (lci_fields g)"
    using assms(1) by (simp only: lci_content_def)
  have w: "\<forall>(off, w, v) \<in> set (lci_fields g). off + w \<le> 128"
    by (simp add: lci_fields_def)
  have c: "fields_hold s' ((p + 2) * 8) (lci_fields g)"
  proof (rule fields_hold_frame [OF f assms(2)], clarify)
    fix off w v assume "(off, w, v) \<in> set (lci_fields g)"
    with w have "off + w \<le> 128" by blast
    then have "((p + 2) * 8 + off + w + 7) div 8 \<le> p + 18" by simp
    then have "((p + 2) * 8 + off + w + 7) div 8 * 2 \<le> (p + 18) * 2" by simp
    with assms(3) show "((p + 2) * 8 + off + w + 7) div 8 * 2 \<le> lo" by simp
  qed
  from assms(1) have "getoctet s p = Some LCI_CODE" "getoctet s (p + 1) = Some 16"
    by (simp_all only: lci_content_def)
  with a b c show ?thesis by (simp only: lci_content_def simp_thms)
qed

lemma z_content_frame:
  assumes "z_content s p g" "modifies s s' lo hi" "(p + 8) * 2 \<le> lo"
  shows "z_content s' p g"
proof -
  have a: "getoctet s' (p + j) = getoctet s (p + j)" if "j < 8" for j
    by (rule getoctet_frame [OF assms(2)]) (use assms(3) that in simp)
  have b: "getnumber s' (p + 2) 2 = getnumber s (p + 2) 2"
    by (rule getnumber_frame [OF assms(2)]) (use assms(3) in simp)
  have c: "getnumber s' (p + 4) 3 = getnumber s (p + 4) 3"
    by (rule getnumber_frame [OF assms(2)]) (use assms(3) in simp)
  from assms(1) a [of 0] a [of 1] a [of 7] show ?thesis
    unfolding z_content_def b c by simp
qed

lemma bssid_content_frame:
  assumes "bssid_content s p g" "modifies s s' lo hi" "(p + 3) * 2 \<le> lo"
  shows "bssid_content s' p g"
proof -
  have a: "getoctet s' (p + j) = getoctet s (p + j)" if "j < 3" for j
    by (rule getoctet_frame [OF assms(2)]) (use assms(3) that in simp)
  from assms(1) a [of 0] a [of 1] a [of 2] show ?thesis
    unfolding bssid_content_def by simp
qed

lemma encoding_step:
  assumes enc: "encoding str nbyt" and n: "0 < n" "3 \<le> nbyt"
    and room: "(nbyt + n) * 2 < length str"
    and m: "modifies str str' (nbyt * 2) ((nbyt + n) * 2 + 1)"
    and hex: "\<forall>c. c \<noteq> (nbyt + n) * 2 \<longrightarrow> str' ! c = str ! c \<or> ishexdigit (str' ! c)"
    and nul: "str' ! ((nbyt + n) * 2) = NUL"
    and first: "nbyt = 3 \<or> ishexdigit (str' ! (nbyt * 2))"
  shows "encoding str' (nbyt + n)"
proof -
  have l: "length str' = length str" by (rule modifies_length [OF m])
  have a: "str' ! (length str' - 1) = NUL"
  proof (cases "length str - 1 = (nbyt + n) * 2")
    case True
    with nul l show ?thesis by simp
  next
    case False
    with room have "(nbyt + n) * 2 + 1 \<le> length str - 1" by simp
    from modifies_nth [OF m, of "length str - 1"] this enc l show ?thesis
      by (simp add: encoding_def)
  qed
  have b: "ishexdigit (str' ! i)" if "i + 1 < length str'" "i \<noteq> (nbyt + n) * 2" for i
  proof (cases "i = nbyt * 2")
    case True
    show ?thesis
    proof (cases "nbyt = 3")
      case True
      with enc have "ishexdigit (str ! (nbyt * 2))" by (simp add: encoding_def)
      with hex that(2) \<open>i = nbyt * 2\<close> show ?thesis by metis
    next
      case False
      with first \<open>i = nbyt * 2\<close> show ?thesis by simp
    qed
  next
    case False
    with enc that(1) l have "ishexdigit (str ! i)" by (simp add: encoding_def)
    with hex that(2) show ?thesis by metis
  qed
  from a b room l n nul show ?thesis
    by (simp add: encoding_def)
qed

lemma casts_defined_values:
  assumes "casts_defined g"
  shows "to_llong (c_round (latitude g * 2 ^ 25)) = Some (c_round (latitude g * 2 ^ 25))"
    "to_llong (c_round (longitude g * 2 ^ 25)) = Some (c_round (longitude g * 2 ^ 25))"
    "to_int (c_round (altitude g * 2 ^ 8)) = Some (c_round (altitude g * 2 ^ 8))"
    "to_int (c_trunc (sta_floor g * 16)) = Some (c_trunc (sta_floor g * 16))"
    "to_int (c_trunc (sta_height_above_floor g * 4096))
       = Some (c_trunc (sta_height_above_floor g * 4096))"
  using assms by (simp_all add: casts_defined_def to_llong_def to_int_def split: if_splits)

lemma lci_stage:
  assumes enc: "encoding str 3" and room: "(3 + 18) * 2 < length str" and cd: "casts_defined g"
  shows "\<exists>str' g'. (if wantLCIflag g then encodeLCIfield str 3 g else Some (str, 3, g))
        = Some (str', 3 + lci_octets g, g')
     \<and> prints g g' \<and> modifies str str' 6 (length str) \<and> encoding str' (3 + lci_octets g)
     \<and> (wantLCIflag g \<longrightarrow> lci_content str' 3 g) \<and> (\<not> wantLCIflag g \<longrightarrow> str' = str)"
proof (cases "wantLCIflag g")
  case True
  from encodeLCIfield_spec [OF room casts_defined_values(1-3) [OF cd]] obtain str' g' where
    e: "encodeLCIfield str 3 g = Some (str', 3 + 18, g')" and pr: "prints g g'"
    and m: "modifies str str' (3 * 2) ((3 + 18) * 2 + 1)"
    and hex: "\<forall>c. c \<noteq> (3 + 18) * 2 \<longrightarrow> str' ! c = str ! c \<or> ishexdigit (str' ! c)"
    and nul: "str' ! ((3 + 18) * 2) = NUL"
    and c: "getoctet str' 3 = Some LCI_CODE" "getoctet str' (3 + 1) = Some 16"
      "fields_hold str' ((3 + 2) * 8) (lci_fields g)"
    unfolding lci_fields_def by blast
  have "encoding str' (3 + 18)"
    by (rule encoding_step [OF enc _ _ room m hex nul]) simp_all
  moreover have "modifies str str' 6 (length str)"
    by (rule modifies_mono [OF m]) (use room in simp_all)
  moreover have "lci_content str' 3 g"
    unfolding lci_content_def using c by simp
  ultimately show ?thesis
    using True e pr by (simp add: lci_octets_def)
next
  case False
  with enc show ?thesis
    by (simp add: lci_octets_def prints_refl modifies_refl)
qed

lemma z_stage:
  assumes enc: "encoding str nbyt" and n: "3 \<le> nbyt"
    and room: "(nbyt + 8) * 2 < length str" and cd: "casts_defined g"
  shows "\<exists>str' g'. (if wantZflag g then encodeZfield str nbyt g else Some (str, nbyt, g))
        = Some (str', nbyt + z_octets g, g')
     \<and> prints g g' \<and> modifies str str' (nbyt * 2) (length str)
     \<and> encoding str' (nbyt + z_octets g)
     \<and> (wantZflag g \<longrightarrow> z_content str' nbyt g) \<and> (\<not> wantZflag g \<longrightarrow> str' = str)"
proof (cases "wantZflag g")
  case True
  from encodeZfield_spec [OF room casts_defined_values(4,5) [OF cd]] obtain str' g' where
    e: "encodeZfield str nbyt g = Some (str', nbyt + 8, g')" and pr: "prints g g'"
    and m: "modifies str str' (nbyt * 2) ((nbyt + 8) * 2 + 1)"
    and hex: "\<forall>c. c \<noteq> (nbyt + 8) * 2 \<longrightarrow> str' ! c = str ! c \<or> ishexdigit (str' ! c)"
    and nul: "str' ! ((nbyt + 8) * 2) = NUL"
    and first: "ishexdigit (str' ! (nbyt * 2))"
    and c: "getoctet str' nbyt = Some Z_CODE" "getoctet str' (nbyt + 1) = Some 6"
      "getnumber str' (nbyt + 2) 2
        = Some (take_bit 16 ((expected_to_move g AND 3) OR push_bit 2 (c_trunc (sta_floor g * 16))))"
      "getnumber str' (nbyt + 4) 3 = Some (take_bit 24 (c_trunc (sta_height_above_floor g * 4096)))"
      "getoctet str' (nbyt + 7)
        = Some (if chosen_code (sta_height_above_floor_uncertainty g) 11 (smallestflag g)
                     MAX_Z_UNCERTAINTY > MAX_Z_UNCERTAINTY
                then MAX_Z_UNCERTAINTY
                else chosen_code (sta_height_above_floor_uncertainty g) 11 (smallestflag g)
                     MAX_Z_UNCERTAINTY)"
    by blast
  have "encoding str' (nbyt + 8)"
    by (rule encoding_step [OF enc _ n room m hex nul]) (simp_all add: first)
  moreover have "modifies str str' (nbyt * 2) (length str)"
    by (rule modifies_mono [OF m]) (use room in simp_all)
  moreover have "z_content str' nbyt g"
    unfolding z_content_def using c by simp
  ultimately show ?thesis
    using True e pr by (simp add: z_octets_def)
next
  case False
  with enc show ?thesis
    by (simp add: z_octets_def prints_refl modifies_refl)
qed

lemma bssid_stage:
  assumes enc: "encoding str nbyt" and n: "3 \<le> nbyt"
    and room: "(nbyt + 3 + 6 * length (BSSIDS g)) * 2 < length str"
    and n42: "length (BSSIDS g) \<le> 42" and valid: "\<forall>b \<in> set (BSSIDS g). isValidBSSID b"
  shows "\<exists>str'. (if wantColocatedflag g \<and> 0 < length (BSSIDS g)
          then encodeColocatedBSSID str nbyt (length (BSSIDS g)) g else Some (str, nbyt, g))
        = Some (str', nbyt + bssid_octets g, g)
     \<and> modifies str str' (nbyt * 2) (length str)
     \<and> encoding str' (nbyt + bssid_octets g)
     \<and> (bssid_emitted g \<longrightarrow> bssid_content str' nbyt g) \<and> (\<not> bssid_emitted g \<longrightarrow> str' = str)"
proof (cases "bssid_emitted g")
  case True
  then have ne: "BSSIDS g \<noteq> []" and w: "wantColocatedflag g" by (simp_all add: bssid_emitted_def)
  from encodeColocatedBSSID_spec [OF room ne n42 valid] obtain str' where
    e: "encodeColocatedBSSID str nbyt (length (BSSIDS g)) g
        = Some (str', nbyt + 3 + 6 * length (BSSIDS g), g)"
    and m: "modifies str str' (nbyt * 2) ((nbyt + 3 + 6 * length (BSSIDS g)) * 2 + 1)"
    and hex: "\<forall>c. c \<noteq> (nbyt + 3 + 6 * length (BSSIDS g)) * 2 \<longrightarrow>
            str' ! c = str ! c \<or> ishexdigit (str' ! c)"
    and nul: "str' ! ((nbyt + 3 + 6 * length (BSSIDS g)) * 2) = NUL"
    and first: "ishexdigit (str' ! (nbyt * 2))"
    and c: "getoctet str' nbyt = Some COLOCATED_BSSID"
      "getoctet str' (nbyt + 1) = Some (int (length (BSSIDS g)) * 6 + 1)"
      "getoctet str' (nbyt + 2) = Some (int (length (BSSIDS g)))"
    by blast
  have eq: "nbyt + 3 + 6 * length (BSSIDS g) = nbyt + (3 + 6 * length (BSSIDS g))" by simp
  have "encoding str' (nbyt + (3 + 6 * length (BSSIDS g)))"
    by (rule encoding_step [OF enc _ n room [unfolded eq] m [unfolded eq] hex [unfolded eq]
          nul [unfolded eq]]) (simp_all add: first)
  moreover have "modifies str str' (nbyt * 2) (length str)"
    by (rule modifies_mono [OF m]) (use room in simp_all)
  moreover have "bssid_content str' nbyt g"
    unfolding bssid_content_def using c by simp
  ultimately show ?thesis
    using True e ne w by (simp add: bssid_octets_def eq)
next
  case False
  with enc show ?thesis
    by (auto simp: bssid_octets_def bssid_emitted_def modifies_refl)
qed

lemma usage_stage:
  assumes enc: "encoding str nbyt" and n: "3 \<le> nbyt"
    and room: "(nbyt + 5) * 2 < length str"
  shows "\<exists>str' g'. (if C then encodeUsageField str nbyt g else Some (str, nbyt, g))
        = Some (str', nbyt + (if C then usage_octets g else 0), g')
     \<and> modifies str str' (nbyt * 2) (length str)
     \<and> (C \<longrightarrow> usage_content str' nbyt g) \<and> (\<not> C \<longrightarrow> str' = str)
     \<and> max_bssids g' = max_bssids g
     \<and> (\<not> C \<or> (0 \<le> usage_parameters g \<and> usage_parameters g < 256) \<longrightarrow>
          encoding str' (nbyt + (if C then usage_octets g else 0)))"
proof (cases C)
  case True
  have uo: "0 < usage_octets g" "usage_octets g \<le> 5" by (simp_all add: usage_octets_def)
  have room': "(nbyt + usage_octets g) * 2 < length str" using room uo by simp
  from encodeUsageField_spec [OF room, of g] obtain str' where
    e: "encodeUsageField str nbyt g = Some (str', nbyt + usage_octets g, reconciled g)"
    and m: "modifies str str' (nbyt * 2) ((nbyt + usage_octets g) * 2 + 1)"
    and nul: "str' ! ((nbyt + usage_octets g) * 2) = NUL"
    and first: "ishexdigit (str' ! (nbyt * 2))"
    and c: "getoctet str' nbyt = Some USAGE_CODE"
      "getoctet str' (nbyt + 1) = Some (int (usage_octets g) - 2)"
    and hex: "0 \<le> usage_parameters g \<and> usage_parameters g < 256 \<longrightarrow>
          (\<forall>c. c \<noteq> (nbyt + usage_octets g) * 2 \<longrightarrow> str' ! c = str ! c \<or> ishexdigit (str' ! c))"
    by blast
  have en: "encoding str' (nbyt + usage_octets g)"
    if "0 \<le> usage_parameters g \<and> usage_parameters g < 256"
  proof -
    from hex that have h: "\<forall>c. c \<noteq> (nbyt + usage_octets g) * 2 \<longrightarrow>
        str' ! c = str ! c \<or> ishexdigit (str' ! c)" by blast
    show ?thesis
      by (rule encoding_step [OF enc uo(1) n room' m h nul]) (simp add: first)
  qed
  have mm: "modifies str str' (nbyt * 2) (length str)"
    by (rule modifies_mono [OF m]) (use room' in simp_all)
  have uc: "usage_content str' nbyt g"
    unfolding usage_content_def using c by simp
  have "max_bssids (reconciled g) = max_bssids g" by (simp add: reconciled_def say_def)
  then show ?thesis
    using True e mm uc en by (intro exI [of _ str'] exI [of _ "reconciled g"]) simp
next
  case False
  with enc show ?thesis
    by (simp add: modifies_refl)
qed

lemma prints_notions:
  assumes "prints g g'"
  shows "casts_defined g' = casts_defined g" "lci_octets g' = lci_octets g"
    "z_octets g' = z_octets g" "bssid_emitted g' = bssid_emitted g"
    "bssid_octets g' = bssid_octets g" "usage_needed g' = usage_needed g"
    "usage_emitted g' = usage_emitted g" "usage_octets g' = usage_octets g"
    "usage_parameters g' = usage_parameters g" "lci_fields g' = lci_fields g"
    "lci_content s p g' = lci_content s p g" "z_content s p g' = z_content s p g"
    "bssid_content s p g' = bssid_content s p g" "usage_content s p g' = usage_content s p g"
  by (simp_all add: casts_defined_def lci_octets_def z_octets_def bssid_emitted_def
      bssid_octets_def usage_needed_def usage_emitted_def usage_octets_def usage_parameters_def
      lci_fields_def lci_content_def z_content_def bssid_content_def usage_content_def
      prints_fields [OF assms])

lemma encodeLCIstring_spec:
  assumes cd: "casts_defined g" and n42: "length (BSSIDS g) \<le> 42"
    and valid: "\<forall>b \<in> set (BSSIDS g). isValidBSSID b"
  shows "\<exists>str g'. encodeLCIstring g = Some (str, g')
     \<and> max_bssids g' = max_bssids g
     \<and> length str = (37 + 6 * length (BSSIDS g)) * 2 + 1
     \<and> getoctet str 0 = Some MEASURE_TOKEN \<and> getoctet str 1 = Some MEASURE_REQUEST_MODE
     \<and> getoctet str 2 = Some LCI_TYPE
     \<and> (wantLCIflag g \<longrightarrow> lci_content str 3 g)
     \<and> (wantZflag g \<longrightarrow> z_content str (z_pos g) g)
     \<and> (bssid_emitted g \<longrightarrow> bssid_content str (bssid_pos g) g)
     \<and> (usage_emitted g \<longrightarrow> usage_content str (usage_pos g) g)
     \<and> (\<forall>i < usage_pos g * 2. ishexdigit (str ! i))
     \<and> (\<not> usage_emitted g \<or> (0 \<le> usage_parameters g \<and> usage_parameters g < 256) \<longrightarrow>
          encoding str (end_pos g))
     \<and> (end_pos g = 3 \<longrightarrow> (\<forall>i. 6 \<le> i \<and> i + 1 < length str \<longrightarrow> str ! i = CHR ''0''))"
proof -
  define N where "N = length (BSSIDS g)"
  define str0 where "str0 = replicate
      ((3 + (2 + 16) + (2 + 6) + (2 + 3) + (2 + 6 * length (BSSIDS g) + 1)) * 2) CHR ''0'' @ [NUL]"
  have len0: "length str0 = (37 + 6 * N) * 2 + 1" by (simp add: str0_def N_def)
  have hex0: "ishexdigit (str0 ! i)" if "i + 1 < length str0" for i
    using that by (simp add: str0_def nth_append ishexdigit_def)
  have nul0: "str0 ! (length str0 - 1) = NUL" by (simp add: str0_def nth_append)
  define g0 where "g0 = checksettings g"
  have pr0: "prints g g0" unfolding g0_def by (rule checksettings_prints)

  have "0 * 2 + 1 < length str0" using len0 by simp
  from putoctet_spec [OF this, of MEASURE_TOKEN] obtain s1 where
    s1: "putoctet str0 0 MEASURE_TOKEN = Some s1"
    and m1: "modifies str0 s1 (0 * 2) (0 * 2 + 2)" and h1: "hexwrites str0 s1"
    and o1: "getoctet s1 0 = Some MEASURE_TOKEN"
    by auto
  have l1: "length s1 = length str0" by (rule modifies_length [OF m1])
  have "(0 + 1) * 2 + 1 < length s1" using len0 l1 by simp
  from putoctet_spec [OF this, of MEASURE_REQUEST_MODE] obtain s2 where
    s2: "putoctet s1 (0 + 1) MEASURE_REQUEST_MODE = Some s2"
    and m2: "modifies s1 s2 ((0 + 1) * 2) ((0 + 1) * 2 + 2)" and h2: "hexwrites s1 s2"
    and o2: "getoctet s2 (0 + 1) = Some MEASURE_REQUEST_MODE"
    by auto
  have l2: "length s2 = length str0" using modifies_length [OF m2] l1 by simp
  have "(0 + 2) * 2 + 1 < length s2" using len0 l2 by simp
  from putoctet_spec [OF this, of LCI_TYPE] obtain s3 where
    s3: "putoctet s2 (0 + 2) LCI_TYPE = Some s3"
    and m3: "modifies s2 s3 ((0 + 2) * 2) ((0 + 2) * 2 + 2)" and h3: "hexwrites s2 s3"
    and o3: "getoctet s3 (0 + 2) = Some LCI_TYPE"
    by auto
  have l3: "length s3 = length str0" using modifies_length [OF m3] l2 by simp
  have m13: "modifies s1 s3 2 6"
    by (rule modifies_trans [OF modifies_mono [OF m2] modifies_mono [OF m3]]) simp_all
  have m03: "modifies str0 s3 0 6"
    by (rule modifies_trans [OF modifies_mono [OF m1] modifies_mono [OF m13]]) simp_all
  have h03: "hexwrites str0 s3"
    by (intro hexwrites_trans [OF h1] hexwrites_trans [OF h2] h3)
  have hd3: "getoctet s3 0 = Some MEASURE_TOKEN" "getoctet s3 1 = Some MEASURE_REQUEST_MODE"
    "getoctet s3 2 = Some LCI_TYPE"
  proof -
    show "getoctet s3 0 = Some MEASURE_TOKEN"
      using getoctet_frame [OF m13, of 0] o1 by simp
    show "getoctet s3 1 = Some MEASURE_REQUEST_MODE"
      using getoctet_frame [OF m3, of 1] o2 by simp
    have "(0::nat) + 2 = 2" by simp
    from o3 [unfolded this] show "getoctet s3 2 = Some LCI_TYPE" .
  qed
  have hex3: "ishexdigit (s3 ! i)" if "i + 1 < length s3" for i
    using h03 hex0 [of i] that l3 unfolding hexwrites_def by metis
  have enc3: "encoding s3 3"
    unfolding encoding_def
    using hex3 modifies_nth [OF m03, of "length str0 - 1"] nul0 l3 len0 by simp

  have cd0: "casts_defined g0" using cd by (simp add: prints_notions [OF pr0])
  have "(3 + 18) * 2 < length s3" using l3 len0 by simp
  from lci_stage [OF enc3 this cd0] obtain sL gL where
    eL: "(if wantLCIflag g0 then encodeLCIfield s3 3 g0 else Some (s3, 3, g0))
        = Some (sL, 3 + lci_octets g0, gL)"
    and prL: "prints g0 gL" and mL: "modifies s3 sL 6 (length s3)"
    and encL: "encoding sL (3 + lci_octets g0)"
    and cL: "wantLCIflag g0 \<longrightarrow> lci_content sL 3 g0"
    and nL: "\<not> wantLCIflag g0 \<longrightarrow> sL = s3"
    by blast
  have lL: "length sL = length str0" using modifies_length [OF mL] l3 by simp
  have prgL: "prints g gL" by (rule prints_trans [OF pr0 prL])
  define pZ where "pZ = 3 + lci_octets g0"
  have pZ: "pZ = z_pos g" "3 \<le> pZ" "pZ \<le> 21"
    by (simp_all add: pZ_def z_pos_def lci_octets_def prints_fields [OF pr0])

  have cdL: "casts_defined gL" using cd by (simp add: prints_notions [OF prgL])
  have "(pZ + 8) * 2 < length sL" using lL len0 pZ by simp
  from z_stage [OF encL [folded pZ_def] pZ(2) this cdL] obtain sZ gZ where
    eZ: "(if wantZflag gL then encodeZfield sL pZ gL else Some (sL, pZ, gL))
        = Some (sZ, pZ + z_octets gL, gZ)"
    and prZ: "prints gL gZ" and mZ: "modifies sL sZ (pZ * 2) (length sL)"
    and encZ: "encoding sZ (pZ + z_octets gL)"
    and cZ: "wantZflag gL \<longrightarrow> z_content sZ pZ gL"
    and nZ: "\<not> wantZflag gL \<longrightarrow> sZ = sL"
    by blast
  have lZ: "length sZ = length str0" using modifies_length [OF mZ] lL by simp
  have prgZ: "prints g gZ" by (rule prints_trans [OF prgL prZ])
  define pB where "pB = pZ + z_octets gL"
  have pB: "pB = bssid_pos g" "3 \<le> pB" "pB \<le> 29" "pZ \<le> pB"
    using pZ by (simp_all add: pB_def bssid_pos_def z_octets_def prints_fields [OF prgL])

  have bZ: "BSSIDS gZ = BSSIDS g" by (simp add: prints_fields [OF prgZ])
  have "(pB + 3 + 6 * length (BSSIDS gZ)) * 2 < length sZ"
    using lZ len0 pB by (simp add: bZ N_def)
  from bssid_stage [OF encZ [folded pB_def] pB(2) this] n42 valid obtain sB where
    eB: "(if wantColocatedflag gZ \<and> 0 < length (BSSIDS gZ)
          then encodeColocatedBSSID sZ pB (length (BSSIDS gZ)) gZ else Some (sZ, pB, gZ))
        = Some (sB, pB + bssid_octets gZ, gZ)"
    and mB: "modifies sZ sB (pB * 2) (length sZ)"
    and encB: "encoding sB (pB + bssid_octets gZ)"
    and cB: "bssid_emitted gZ \<longrightarrow> bssid_content sB pB gZ"
    and nB: "\<not> bssid_emitted gZ \<longrightarrow> sB = sZ"
    unfolding bZ by blast
  have lB: "length sB = length str0" using modifies_length [OF mB] lZ by simp
  define pU where "pU = pB + bssid_octets gZ"
  have pU: "pU = usage_pos g" "3 \<le> pU" "pU \<le> 32 + 6 * N" "pB \<le> pU"
    using pB by (simp_all add: pU_def usage_pos_def bssid_octets_def bssid_emitted_def
        prints_fields [OF prgZ] N_def)

  define C where "C \<longleftrightarrow> wantUsageflag gZ \<and>
      ((latitude g0 \<noteq> 0 \<or> longitude g0 \<noteq> 0 \<or> altitude g0 \<noteq> 0)
       \<or> (sta_floor gL \<noteq> 0 \<or> sta_height_above_floor gL \<noteq> 0
            \<or> sta_height_above_floor_uncertainty gL \<noteq> 0)
       \<or> 0 < length (BSSIDS gZ))"
  have C: "C \<longleftrightarrow> usage_emitted g"
    by (simp add: C_def usage_emitted_def usage_needed_def prints_fields [OF pr0]
        prints_fields [OF prgL] prints_fields [OF prgZ])
  have "(pU + 5) * 2 < length sB" using lB len0 pU by simp
  from usage_stage [OF encB [folded pU_def] pU(2) this, of C gZ] obtain sU gU where
    eU: "(if C then encodeUsageField sB pU gZ else Some (sB, pU, gZ))
        = Some (sU, pU + (if C then usage_octets gZ else 0), gU)"
    and mU: "modifies sB sU (pU * 2) (length sB)"
    and cU: "C \<longrightarrow> usage_content sU pU gZ"
    and nU: "\<not> C \<longrightarrow> sU = sB"
    and mbU: "max_bssids gU = max_bssids gZ"
    and encU: "\<not> C \<or> (0 \<le> usage_parameters gZ \<and> usage_parameters gZ < 256) \<longrightarrow>
          encoding sU (pU + (if C then usage_octets gZ else 0))"
    by blast
  have lU: "length sU = length str0" using modifies_length [OF mU] lB by simp

  have z1: "(0::nat) + 3 = 3" by simp
  have main: "encodeLCIstring g = Some (sU, gU)"
    unfolding encodeLCIstring_def Let_def str0_def [symmetric] g0_def [symmetric]
    by (simp only: s1 s2 s3 z1 eL pZ_def [symmetric] eZ pB_def [symmetric] eB
        pU_def [symmetric] C_def [symmetric] eU bind.bind_lunit prod.case)

  have mBU: "modifies sB sU (pU * 2) (length str0)" using mU lB by simp
  have mZU: "modifies sZ sU (pB * 2) (length str0)"
    by (rule modifies_trans [OF modifies_mono [OF mB] modifies_mono [OF mBU]])
       (use pU lZ in simp_all)
  have mLU: "modifies sL sU (pZ * 2) (length str0)"
    by (rule modifies_trans [OF modifies_mono [OF mZ] modifies_mono [OF mZU]])
       (use pB lL in simp_all)
  have m3U: "modifies s3 sU 6 (length str0)"
    by (rule modifies_trans [OF modifies_mono [OF mL] modifies_mono [OF mLU]])
       (use pZ l3 in simp_all)
  have len: "length sU = (37 + 6 * length (BSSIDS g)) * 2 + 1"
    using lU len0 by (simp add: N_def)
  have hd: "getoctet sU 0 = Some MEASURE_TOKEN" "getoctet sU 1 = Some MEASURE_REQUEST_MODE"
    "getoctet sU 2 = Some LCI_TYPE"
    using getoctet_frame [OF m3U, of 0] getoctet_frame [OF m3U, of 1]
      getoctet_frame [OF m3U, of 2] hd3 by simp_all
  have rL: "lci_content sU 3 g" if w: "wantLCIflag g"
  proof -
    from w cL have "lci_content sL 3 g"
      by (simp add: prints_notions [OF pr0] prints_fields [OF pr0])
    moreover from w have "pZ = 21"
      by (simp add: pZ_def lci_octets_def prints_fields [OF pr0])
    ultimately show ?thesis
      by (intro lci_content_frame [OF _ mLU]) simp_all
  qed
  have rZ: "z_content sU (z_pos g) g" if w: "wantZflag g"
  proof -
    from w cZ have "z_content sZ pZ g"
      by (simp add: prints_notions [OF prgL] prints_fields [OF prgL])
    moreover from w have "pB = pZ + 8"
      by (simp add: pB_def z_octets_def prints_fields [OF prgL])
    ultimately show ?thesis
      unfolding pZ(1) [symmetric] by (intro z_content_frame [OF _ mZU]) simp_all
  qed
  have rB: "bssid_content sU (bssid_pos g) g" if w: "bssid_emitted g"
  proof -
    from w cB have "bssid_content sB pB g"
      by (simp add: prints_notions [OF prgZ])
    moreover from w have "pB + 3 \<le> pU"
      by (simp add: pU_def bssid_octets_def prints_notions [OF prgZ])
    ultimately show ?thesis
      unfolding pB(1) [symmetric] by (intro bssid_content_frame [OF _ mBU]) simp_all
  qed
  have rU: "usage_content sU (usage_pos g) g" if w: "usage_emitted g"
    using w cU C by (simp add: pU(1) prints_notions [OF prgZ])
  have rH: "\<forall>i < usage_pos g * 2. ishexdigit (sU ! i)"
  proof (intro allI impI)
    fix i assume i: "i < usage_pos g * 2"
    then have "i < pU * 2" by (simp add: pU(1))
    moreover from this have "i + 1 < length sB" using lB len0 pU by simp
    ultimately have "ishexdigit (sB ! i)" using encB [folded pU_def]
      by (simp add: encoding_def)
    with modifies_nth [OF mBU, of i] \<open>i < pU * 2\<close> show "ishexdigit (sU ! i)" by simp
  qed
  have rE: "encoding sU (end_pos g)"
    if "\<not> usage_emitted g \<or> (0 \<le> usage_parameters g \<and> usage_parameters g < 256)"
    using encU that C
    by (auto simp: end_pos_def pU(1) prints_notions [OF prgZ])
  have r0: "\<forall>i. 6 \<le> i \<and> i + 1 < length sU \<longrightarrow> sU ! i = CHR ''0''" if e: "end_pos g = 3"
  proof -
    from e have "lci_octets g = 0" "z_octets g = 0" "bssid_octets g = 0"
      "(if usage_emitted g then usage_octets g else 0) = 0"
      by (simp_all add: end_pos_def usage_pos_def bssid_pos_def z_pos_def)
    then have "\<not> wantLCIflag g" "\<not> wantZflag g" "\<not> bssid_emitted g" "\<not> usage_emitted g"
      by (simp_all add: lci_octets_def z_octets_def bssid_octets_def usage_octets_def
          split: if_splits)
    with nL nZ nB nU C have "sU = s3"
      by (simp add: prints_fields [OF pr0] prints_fields [OF prgL] prints_notions [OF prgZ])
    moreover have "s3 ! i = CHR ''0''" if "6 \<le> i" "i + 1 < length s3" for i
      using modifies_nth [OF m03, of i] that l3 by (simp add: str0_def nth_append)
    ultimately show ?thesis by simp
  qed
  have mb: "max_bssids gU = max_bssids g" using mbU by (simp add: prints_fields [OF prgZ])
  from main mb len hd rL rZ rB rU rH rE r0 show ?thesis by blast
qed




section \<open>The encoded string and its subelements\<close>




lemma string_of_terminated:
  assumes "\<forall>i < m. str ! i \<noteq> NUL" "m < length str" "str ! m = NUL"
  shows "string_of str = take m str"
  unfolding string_of_def
  by (rule takeWhile_eq_take_P_nth) (use assms in simp_all)


lemma getoctet_take:
  "n * 2 + 1 < m \<Longrightarrow> m \<le> length str \<Longrightarrow> getoctet (take m str) n = getoctet str n"
  by (simp add: getoctet_def rd_def)

lemma IDs_step:
  assumes "getoctet str n = Some ID" "getoctet str (n + 1) = Some (int len)"
    and "(n + 2) * 2 \<le> m" "m \<le> length str"
  shows "subelement_IDs (take m str) n = ID # subelement_IDs (take m str) (n + 2 + len)"
proof -
  have a: "getoctet (take m str) n = Some ID"
    using assms by (simp add: getoctet_take)
  have b: "getoctet (take m str) (n + 1) = Some (int len)"
    using assms by (simp add: getoctet_take)
  have c: "n * 2 + 3 < length (take m str)" using assms(3,4) by simp
  show ?thesis
    by (subst subelement_IDs.simps) (simp only: a b c if_True option.case nat_int)
qed

lemma IDs_end: "length s \<le> n * 2 + 3 \<Longrightarrow> subelement_IDs s n = []"
  by (subst subelement_IDs.simps) simp

lemma IDs_zeros:
  "(\<And>i. n * 2 \<le> i \<Longrightarrow> i < length s \<Longrightarrow> s ! i = CHR ''0'') \<Longrightarrow>
   set (subelement_IDs s n) \<subseteq> {0}"
proof (induction s n rule: subelement_IDs.induct)
  case (1 s nbyt)
  show ?case
  proof (cases "nbyt * 2 + 3 < length s")
    case False
    then show ?thesis by (subst subelement_IDs.simps) simp
  next
    case True
    have z: "getoctet s k = Some 0" if "nbyt \<le> k" "k * 2 + 1 < length s" for k
      using that 1(2) [of "k * 2"] 1(2) [of "k * 2 + 1"]
      by (simp add: getoctet_def rd_def hextoint_def)
    have a: "getoctet s nbyt = Some 0" using True by (intro z) simp_all
    have b: "getoctet s (nbyt + 1) = Some 0" using True by (intro z) simp_all
    have r: "set (subelement_IDs s (nbyt + 2 + nat 0)) \<subseteq> {0}"
      by (rule 1(1) [OF True a b]) (use 1(2) in simp)
    have "subelement_IDs s nbyt = 0 # subelement_IDs s (nbyt + 2 + nat 0)"
      by (subst subelement_IDs.simps) (simp only: a b True if_True option.case)
    with r show ?thesis by simp
  qed
qed

lemma usage_parameters_range:
  assumes "retransmission_allowed g \<in> {0, 1}" "retention_expires_present g \<in> {0, 1}"
    "STA_location_policy g \<in> {0, 1}"
  shows "0 \<le> usage_parameters g \<and> usage_parameters g < 256"
  using assms by (auto simp: usage_parameters_def)

lemma encoded_IDs:
  assumes cd: "casts_defined g" and n42: "length (BSSIDS g) \<le> 42"
    and valid: "\<forall>b \<in> set (BSSIDS g). isValidBSSID b"
    and up: "0 \<le> usage_parameters g \<and> usage_parameters g < 256"
  shows "\<exists>s. encoded g = Some s
     \<and> (if end_pos g = 3 then set (subelement_IDs s 3) \<subseteq> {0}
        else subelement_IDs s 3 =
          (if wantLCIflag g then [LCI_CODE] else [])
          @ (if wantZflag g then [Z_CODE] else [])
          @ (if bssid_emitted g then [COLOCATED_BSSID] else [])
          @ (if usage_emitted g then [USAGE_CODE] else []))"
proof -
  from encodeLCIstring_spec [OF cd n42 valid] up obtain str g' where
    e: "encodeLCIstring g = Some (str, g')"
    and len: "length str = (37 + 6 * length (BSSIDS g)) * 2 + 1"
    and cL: "wantLCIflag g \<longrightarrow> lci_content str 3 g"
    and cZ: "wantZflag g \<longrightarrow> z_content str (z_pos g) g"
    and cB: "bssid_emitted g \<longrightarrow> bssid_content str (bssid_pos g) g"
    and cU: "usage_emitted g \<longrightarrow> usage_content str (usage_pos g) g"
    and enc: "encoding str (end_pos g)"
    and zero: "end_pos g = 3 \<longrightarrow> (\<forall>i. 6 \<le> i \<and> i + 1 < length str \<longrightarrow> str ! i = CHR ''0'')"
    by blast
  have es: "encoded g = Some (string_of str)" by (simp add: encoded_def e)
  define E where "E = end_pos g"
  have El: "E * 2 < length str" using enc by (simp add: encoding_def E_def)
  have hex: "ishexdigit (str ! i)" if "i + 1 < length str" "i \<noteq> E * 2" for i
    using enc that by (simp add: encoding_def E_def)
  show ?thesis
  proof (cases "end_pos g = 3")
    case True
    have h6: "ishexdigit (str ! 6)" using enc True by (simp add: encoding_def)
    have nn: "\<forall>i < length str - 1. str ! i \<noteq> NUL"
    proof (intro allI impI)
      fix i assume "i < length str - 1"
      then have "ishexdigit (str ! i)"
        using hex [of i] h6 True by (cases "i = 6") (simp_all add: E_def)
      then show "str ! i \<noteq> NUL" by (rule ishexdigit_not_NUL)
    qed
    have last: "str ! (length str - 1) = NUL" using enc by (simp add: encoding_def)
    have so: "string_of str = take (length str - 1) str"
      by (rule string_of_terminated [OF nn _ last]) (use len in simp)
    have "set (subelement_IDs (take (length str - 1) str) 3) \<subseteq> {0}"
      by (rule IDs_zeros) (use zero True in simp)
    with True es so show ?thesis by simp
  next
    case False
    then have nul: "str ! (E * 2) = NUL" using enc by (simp add: encoding_def E_def)
    have nn: "\<forall>i < E * 2. str ! i \<noteq> NUL"
    proof (intro allI impI)
      fix i assume "i < E * 2"
      with El have "ishexdigit (str ! i)" by (intro hex) simp_all
      then show "str ! i \<noteq> NUL" by (rule ishexdigit_not_NUL)
    qed
    have so: "string_of str = take (E * 2) str"
      by (rule string_of_terminated [OF nn El nul])
    define s where "s = take (E * 2) str"
    have ls: "length s = E * 2" using El by (simp add: s_def)
    have uo: "3 \<le> usage_octets g" by (simp add: usage_octets_def)
    have EU: "E = usage_pos g + (if usage_emitted g then usage_octets g else 0)"
      by (simp add: E_def end_pos_def)
    have UB: "usage_pos g = bssid_pos g + bssid_octets g" by (simp add: usage_pos_def)
    have BZ: "bssid_pos g = z_pos g + z_octets g" by (simp add: bssid_pos_def)
    have ZL: "z_pos g = 3 + lci_octets g" by (simp add: z_pos_def)
    have iU: "subelement_IDs s (usage_pos g) = (if usage_emitted g then [USAGE_CODE] else [])"
    proof (cases "usage_emitted g")
      case True
      with cU have a: "getoctet str (usage_pos g) = Some USAGE_CODE"
        and b: "getoctet str (usage_pos g + 1) = Some (int (usage_octets g - 2))"
        using uo by (simp_all add: usage_content_def)
      have "subelement_IDs s (usage_pos g)
          = USAGE_CODE # subelement_IDs s (usage_pos g + 2 + (usage_octets g - 2))"
        unfolding s_def by (rule IDs_step [OF a b]) (use True EU uo El in simp_all)
      moreover have "subelement_IDs s (usage_pos g + 2 + (usage_octets g - 2)) = []"
        by (rule IDs_end) (use True EU uo ls in simp)
      ultimately show ?thesis using True by simp
    next
      case False
      then show ?thesis using EU ls by (simp add: IDs_end)
    qed
    have iB: "subelement_IDs s (bssid_pos g)
        = (if bssid_emitted g then [COLOCATED_BSSID] else []) @ subelement_IDs s (usage_pos g)"
    proof (cases "bssid_emitted g")
      case True
      with cB have a: "getoctet str (bssid_pos g) = Some COLOCATED_BSSID"
        and b: "getoctet str (bssid_pos g + 1) = Some (int (6 * length (BSSIDS g) + 1))"
        by (simp_all add: bssid_content_def mult.commute)
      have "subelement_IDs s (bssid_pos g)
          = COLOCATED_BSSID # subelement_IDs s (bssid_pos g + 2 + (6 * length (BSSIDS g) + 1))"
        unfolding s_def
        by (rule IDs_step [OF a b]) (use True EU UB El in \<open>simp_all add: bssid_octets_def\<close>)
      moreover have "bssid_pos g + 2 + (6 * length (BSSIDS g) + 1) = usage_pos g"
        using True by (simp add: UB bssid_octets_def)
      ultimately show ?thesis using True by simp
    next
      case False
      then show ?thesis by (simp add: UB bssid_octets_def)
    qed
    have iZ: "subelement_IDs s (z_pos g)
        = (if wantZflag g then [Z_CODE] else []) @ subelement_IDs s (bssid_pos g)"
    proof (cases "wantZflag g")
      case True
      with cZ have a: "getoctet str (z_pos g) = Some Z_CODE"
        and b: "getoctet str (z_pos g + 1) = Some (int 6)"
        by (simp_all add: z_content_def)
      have "subelement_IDs s (z_pos g) = Z_CODE # subelement_IDs s (z_pos g + 2 + 6)"
        unfolding s_def
        by (rule IDs_step [OF a b]) (use True EU UB BZ El in \<open>simp_all add: z_octets_def\<close>)
      moreover have "z_pos g + 2 + 6 = bssid_pos g"
        using True by (simp add: BZ z_octets_def)
      ultimately show ?thesis using True by simp
    next
      case False
      then show ?thesis by (simp add: BZ z_octets_def)
    qed
    have iL: "subelement_IDs s 3
        = (if wantLCIflag g then [LCI_CODE] else []) @ subelement_IDs s (z_pos g)"
    proof (cases "wantLCIflag g")
      case True
      with cL have a: "getoctet str 3 = Some LCI_CODE"
        and b: "getoctet str (3 + 1) = Some (int 16)"
        by (simp_all add: lci_content_def)
      have "subelement_IDs s 3 = LCI_CODE # subelement_IDs s (3 + 2 + 16)"
        unfolding s_def
        by (rule IDs_step [OF a b]) (use True EU UB BZ ZL El in \<open>simp_all add: lci_octets_def\<close>)
      moreover have "3 + 2 + 16 = z_pos g"
        using True by (simp add: ZL lci_octets_def)
      ultimately show ?thesis using True by simp
    next
      case False
      then show ?thesis by (simp add: ZL lci_octets_def)
    qed
    from iL iZ iB iU have "subelement_IDs s 3 =
          (if wantLCIflag g then [LCI_CODE] else [])
          @ (if wantZflag g then [Z_CODE] else [])
          @ (if bssid_emitted g then [COLOCATED_BSSID] else [])
          @ (if usage_emitted g then [USAGE_CODE] else [])"
      by (simp only:)
    with False es so show ?thesis by (simp add: s_def)
  qed
qed


section \<open>The decoder on an encoded array\<close>

























section \<open>The Usage Rules/Policy subelement\<close>

text \<open>
  Claim C8. When \<open>encodeUsageField\<close> is given room for its five octets and the terminator, it
  returns. If \<open>retention_expires_present\<close> is set and \<open>expiration\<close> is 0, the flag is
  cleared, the subelement written is the ID octet 6, the length octet 1 and a parameters
  octet whose bit 1 (the flag) is 0, and the inconsistency is printed; if the flag is clear
  and \<open>expiration\<close> is not 0, the flag is set, the subelement written is the ID octet 6, the
  length octet 3, a parameters octet whose bit 1 is 1 and the two octets of \<open>expiration\<close>,
  and the inconsistency is printed. The parameters octet is
  \<open>retransmission_allowed + 2 * flag + 4 * STA_location_policy\<close> when these two variables are 0
  or 1; the terminator follows the last octet written.
\<close>

theorem encodeUsageField_reconciles:
  assumes room: "(nbyt + 5) * 2 < length str"
  shows "\<exists>str' nbyt' g'. encodeUsageField str nbyt g = Some (str', nbyt', g') \<and>
     (retention_expires_present g \<noteq> 0 \<and> expiration g = 0 \<longrightarrow>
        retention_expires_present g' = 0 \<and> expiration g' = 0
      \<and> getoctet str' nbyt = Some USAGE_CODE \<and> getoctet str' (nbyt + 1) = Some 1
      \<and> (retransmission_allowed g \<in> {0, 1} \<and> STA_location_policy g \<in> {0, 1} \<longrightarrow>
           getoctet str' (nbyt + 2)
             = Some (retransmission_allowed g + 2 * 0 + 4 * STA_location_policy g))
      \<and> nbyt' = nbyt + 3 \<and> str' ! (nbyt' * 2) = NUL
      \<and> printed g' = printed g @ [RetentionWithoutExpiration]) \<and>
     (retention_expires_present g = 0 \<and> expiration g \<noteq> 0 \<longrightarrow>
        retention_expires_present g' = 1 \<and> expiration g' = expiration g
      \<and> getoctet str' nbyt = Some USAGE_CODE \<and> getoctet str' (nbyt + 1) = Some 3
      \<and> (retransmission_allowed g \<in> {0, 1} \<and> STA_location_policy g \<in> {0, 1} \<longrightarrow>
           getoctet str' (nbyt + 2)
             = Some (retransmission_allowed g + 2 * 1 + 4 * STA_location_policy g))
      \<and> getnumber str' (nbyt + 3) 2 = Some (take_bit 16 (expiration g))
      \<and> nbyt' = nbyt + 5 \<and> str' ! (nbyt' * 2) = NUL
      \<and> printed g' = printed g @ [ExpirationWithoutRetention])"
proof -
  from encodeUsageField_spec [OF room, of g] obtain str' where
    e: "encodeUsageField str nbyt g = Some (str', nbyt + usage_octets g, reconciled g)"
    and nul: "str' ! ((nbyt + usage_octets g) * 2) = NUL"
    and oa: "getoctet str' nbyt = Some USAGE_CODE"
    and ob: "getoctet str' (nbyt + 1) = Some (int (usage_octets g) - 2)"
    and od: "expiration g \<noteq> 0 \<longrightarrow> getnumber str' (nbyt + 3) 2 = Some (take_bit 16 (expiration g))"
    and oc: "0 \<le> usage_parameters g \<and> usage_parameters g < 256 \<longrightarrow>
          getoctet str' (nbyt + 2) = Some (usage_parameters g)"
    by blast
  have p0: "usage_parameters g = retransmission_allowed g + 2 * 0 + 4 * STA_location_policy g
      \<and> 0 \<le> usage_parameters g \<and> usage_parameters g < 256"
    if "expiration g = 0" "retransmission_allowed g \<in> {0, 1} \<and> STA_location_policy g \<in> {0, 1}"
    using that by (auto simp: usage_parameters_def)
  have p1: "usage_parameters g = retransmission_allowed g + 2 * 1 + 4 * STA_location_policy g
      \<and> 0 \<le> usage_parameters g \<and> usage_parameters g < 256"
    if "expiration g \<noteq> 0" "retention_expires_present g = 0"
      "retransmission_allowed g \<in> {0, 1} \<and> STA_location_policy g \<in> {0, 1}"
    using that by (auto simp: usage_parameters_def)
  have a: "retention_expires_present (reconciled g) = 0 \<and> expiration (reconciled g) = 0
      \<and> printed (reconciled g) = printed g @ [RetentionWithoutExpiration]
      \<and> usage_octets g = 3"
    if "retention_expires_present g \<noteq> 0 \<and> expiration g = 0"
    using that by (simp add: reconciled_def say_def usage_octets_def)
  have b: "retention_expires_present (reconciled g) = 1
      \<and> expiration (reconciled g) = expiration g
      \<and> printed (reconciled g) = printed g @ [ExpirationWithoutRetention]
      \<and> usage_octets g = 5"
    if "retention_expires_present g = 0 \<and> expiration g \<noteq> 0"
    using that by (simp add: reconciled_def say_def usage_octets_def)
  show ?thesis
  proof (intro exI conjI impI)
    show "encodeUsageField str nbyt g = Some (str', nbyt + usage_octets g, reconciled g)"
      by (rule e)
  qed (use a b nul oa ob oc od p0 p1 in \<open>simp_all\<close>)
qed

theorem encodeUsageField_reconciles_witness:
  "(3 + 5) * 2 < length (replicate 20 CHR ''0'' @ [NUL]) \<and>
   (\<exists>str' nbyt' g'.
      encodeUsageField (replicate 20 CHR ''0'' @ [NUL]) 3
        (initial\<lparr>retention_expires_present := 1\<rparr>) = Some (str', nbyt', g') \<and>
      retention_expires_present g' = 0 \<and> expiration g' = 0 \<and>
      getoctet str' 3 = Some 6 \<and> getoctet str' 4 = Some 1 \<and>
      getoctet str' 5 = Some 1 \<and> nbyt' = 6 \<and> str' ! 12 = NUL \<and>
      printed g' = [RetentionWithoutExpiration]) \<and>
   (\<exists>str' nbyt' g'.
      encodeUsageField (replicate 20 CHR ''0'' @ [NUL]) 3
        (initial\<lparr>expiration := 5\<rparr>) = Some (str', nbyt', g') \<and>
      retention_expires_present g' = 1 \<and> expiration g' = 5 \<and>
      getoctet str' 3 = Some 6 \<and> getoctet str' 4 = Some 3 \<and>
      getoctet str' 5 = Some 3 \<and> getnumber str' 6 2 = Some 5 \<and> nbyt' = 8 \<and> str' ! 16 = NUL \<and>
      printed g' = [ExpirationWithoutRetention])"
  using encodeUsageField_reconciles
      [where nbyt = 3 and str = "replicate 20 CHR ''0'' @ [NUL]"
         and g = "initial\<lparr>retention_expires_present := 1\<rparr>"]
    encodeUsageField_reconciles
      [where nbyt = 3 and str = "replicate 20 CHR ''0'' @ [NUL]"
         and g = "initial\<lparr>expiration := 5\<rparr>"]
  by (simp add: initial_def)

section \<open>The Z subelement\<close>

text \<open>
  Claim C2, on the code. A Z subelement whose uncertainty octet is 25, above
  \<open>MAX_Z_UNCERTAINTY\<close>: the decoder prints the error and computes the uncertainty from
  the code 25 as read, \<open>2 powi (11 - 25)\<close>, not from the maximum 24. (The LCI field decoder
  does replace a code above 34 by 34.)
\<close>

theorem Z_uncertainty_not_clamped:
  "map_option sta_height_above_floor_uncertainty
     (decodeLCIstring (c_str ''0100080406000000000019'') initial) = Some (2 powi (11 - 25))
   \<and> map_option printed
     (decodeLCIstring (c_str ''0100080406000000000019'') initial) = Some [ZUncertaintyCode 25]"
  by code_simp

theorem Z_uncertainty_not_clamped_witness:
  "map_option sta_height_above_floor_uncertainty
     (decodeLCIstring (c_str ''0100080406000000000019'') initial)
   \<noteq> Some (2 powi (11 - MAX_Z_UNCERTAINTY))"
  using Z_uncertainty_not_clamped by auto

text \<open>
  Claim C3, on the code. A floor of \<open>- 1\<close> and a height above the floor of \<open>- 1\<close> are encoded in
  two's complement (\<open>ffc0\<close>, \<open>fff000\<close>); decoding the string that was encoded gives the
  floor 1023 and the height 4095, since the decoder takes both fields as unsigned.
\<close>

theorem Z_negative_floor_not_decoded:
  "encoded (initial\<lparr>wantLCIflag := False, sta_floor := - 1, sta_height_above_floor := - 1\<rparr>)
     = Some ''0100080406ffc0fff00000060101''
   \<and> map_option sta_floor
     (roundtrip (initial\<lparr>wantLCIflag := False, sta_floor := - 1, sta_height_above_floor := - 1\<rparr>))
     = Some 1023
   \<and> map_option sta_height_above_floor
     (roundtrip (initial\<lparr>wantLCIflag := False, sta_floor := - 1, sta_height_above_floor := - 1\<rparr>))
     = Some 4095"
  by code_simp

theorem Z_negative_floor_not_decoded_witness:
  "map_option sta_floor
     (roundtrip (initial\<lparr>wantLCIflag := False, sta_floor := - 1, sta_height_above_floor := - 1\<rparr>))
   \<noteq> Some (- 1)"
  using Z_negative_floor_not_decoded by auto

section \<open>The loop of the decoder\<close>

text \<open>
  Claim C7, on the code. The condition of the decoder's loop, \<open>nbyt < slen\<close>, keeps the ID
  octet inside the string, and the length octet is read before anything is compared with
  \<open>slen\<close>. On the string \<open>01000804\<close>, held in an array of nine characters, the loop is
  entered at octet 3 (\<open>slen\<close> is 4), the ID 4 is read, and the length octet is read from the
  terminator and from the character after it, outside the array, before \<open>bad length code\<close>
  can be printed; the same happens after a complete subelement, on \<open>01000806010104\<close>. When
  the length octet lies inside the string and the declared length reaches past the end,
  as for the second subelement of \<open>0100080601010410\<close>, the line is printed and the loop
  ends.
\<close>

theorem length_octet_read_outside_array:
  "strlen (c_str ''01000804'') = Some 8
   \<and> rd (c_str ''01000804'') (3 * 2) = Some CHR ''0''
   \<and> getoctet (c_str ''01000804'') 3 = Some Z_CODE
   \<and> rd (c_str ''01000804'') (4 * 2 + 1) = None
   \<and> getoctet (c_str ''01000804'') 4 = None
   \<and> decodeLCIstring (c_str ''01000804'') initial = None
   \<and> decodeLCIstring (c_str ''01000806010104'') initial = None
   \<and> map_option printed (decodeLCIstring (c_str ''0100080601010410'') initial)
       = Some [BadLengthCode 4 16 8 8]"
  by code_simp

theorem length_octet_read_outside_array_witness:
  "map_option printed (decodeLCIstring (c_str ''01000804'') initial)
     \<noteq> Some [BadLengthCode 4 0 5 4]"
  using length_octet_read_outside_array by auto

section \<open>The Usage subelement in the container\<close>

text \<open>
  Claim C6 as stated fails: with the LCI, Z and Colocated-BSSID subelements switched off and
  a latitude of 1, none of the three is emitted and the Usage subelement is.
\<close>

theorem Usage_without_other_subelements:
  "encoded (initial\<lparr>wantLCIflag := False, wantZflag := False,
        wantColocatedflag := False, latitude := 1\<rparr>) = Some ''010008060101''
   \<and> subelement_IDs ''010008060101'' 3 = [USAGE_CODE]"
  by code_simp


lemma sample_casts_defined:
  "casts_defined (initial\<lparr>latitude := 1\<rparr>)"
  "casts_defined (initial\<lparr>BSSIDS := [''aabbccddeeff'', ''00:11:22:33:44:55'']\<rparr>)"
  "casts_defined (initial\<lparr>latitude := 1 / 2 ^ 26, latitude_uncertainty := 1,
     longitude_uncertainty := 1, altitude_uncertainty := 1,
     sta_height_above_floor_uncertainty := 1\<rparr>)"
  by code_simp+



text \<open>
  Claim C6, amended. For a configuration that the program can encode (the values within
  the range of the casts, at most 42 colocated BSSIDs, each of them valid, and the three
  Usage variables 0 or 1), the encoded string has a Usage subelement if and only if
  \<open>wantUsageflag\<close> is set and one of these holds: \<open>latitude\<close>, \<open>longitude\<close> or \<open>altitude\<close> is
  not 0; \<open>sta_floor\<close>, \<open>sta_height_above_floor\<close> or its uncertainty is not 0; there is a
  colocated BSSID. Whether the LCI, Z and Colocated-BSSID subelements are themselves
  emitted plays no part.
\<close>

theorem Usage_emitted_iff_needed:
  assumes "casts_defined g" and "length (BSSIDS g) \<le> 42"
    and "\<forall>b \<in> set (BSSIDS g). isValidBSSID b"
    and "retransmission_allowed g \<in> {0, 1}" and "retention_expires_present g \<in> {0, 1}"
    and "STA_location_policy g \<in> {0, 1}"
  shows "\<exists>s. encoded g = Some s \<and>
     (USAGE_CODE \<in> set (subelement_IDs s 3) \<longleftrightarrow>
        wantUsageflag g \<and>
        (latitude g \<noteq> 0 \<or> longitude g \<noteq> 0 \<or> altitude g \<noteq> 0
         \<or> sta_floor g \<noteq> 0 \<or> sta_height_above_floor g \<noteq> 0
         \<or> sta_height_above_floor_uncertainty g \<noteq> 0
         \<or> BSSIDS g \<noteq> []))"
proof -
  from encoded_IDs [OF assms(1-3) usage_parameters_range [OF assms(4-6)]] obtain s where
    e: "encoded g = Some s"
    and i: "if end_pos g = 3 then set (subelement_IDs s 3) \<subseteq> {0}
        else subelement_IDs s 3 =
          (if wantLCIflag g then [LCI_CODE] else [])
          @ (if wantZflag g then [Z_CODE] else [])
          @ (if bssid_emitted g then [COLOCATED_BSSID] else [])
          @ (if usage_emitted g then [USAGE_CODE] else [])"
    by blast
  have u: "usage_emitted g \<longleftrightarrow> wantUsageflag g \<and>
        (latitude g \<noteq> 0 \<or> longitude g \<noteq> 0 \<or> altitude g \<noteq> 0
         \<or> sta_floor g \<noteq> 0 \<or> sta_height_above_floor g \<noteq> 0
         \<or> sta_height_above_floor_uncertainty g \<noteq> 0
         \<or> BSSIDS g \<noteq> [])"
    by (auto simp: usage_emitted_def usage_needed_def)
  have "USAGE_CODE \<in> set (subelement_IDs s 3) \<longleftrightarrow> usage_emitted g"
  proof (cases "end_pos g = 3")
    case True
    then have "\<not> usage_emitted g"
      by (auto simp: end_pos_def usage_pos_def bssid_pos_def z_pos_def usage_octets_def
          split: if_splits)
    moreover from True i have "USAGE_CODE \<notin> set (subelement_IDs s 3)" by auto
    ultimately show ?thesis by simp
  next
    case False
    with i show ?thesis by auto
  qed
  with e u show ?thesis by blast
qed

theorem Usage_emitted_iff_needed_witness:
  "casts_defined (initial\<lparr>latitude := 1\<rparr>)
   \<and> length (BSSIDS (initial\<lparr>latitude := 1\<rparr>)) \<le> 42
   \<and> (\<exists>s. encoded (initial\<lparr>latitude := 1\<rparr>) = Some s \<and> USAGE_CODE \<in> set (subelement_IDs s 3))"
  using Usage_emitted_iff_needed [of "initial\<lparr>latitude := 1\<rparr>"] sample_casts_defined(1)
  by (simp add: initial_def)

section \<open>The exponent of the uncertainty codes\<close>

text \<open>
  Claim C4 as stated fails: the latitude uncertainty code of the element
  \<open>0100080010 52834d12ef \<dots>\<close> is 18, and the decoder makes of it the uncertainty
  \<open>2 powi (8 - 18)\<close>, not \<open>2 powi (25 - 18)\<close>.
\<close>

theorem uncertainty_exponent_is_not_25:
  "getbits (c_str ''010008001052834d12efd2b08b9b4bf1cc2c0000410406000000000012060101'') 40 6 = Some 18
   \<and> map_option latitude_uncertainty
       (decodeLCIstring (c_str ''010008001052834d12efd2b08b9b4bf1cc2c0000410406000000000012060101'') initial)
       = Some (2 powi (8 - 18))
   \<and> (2::real) powi (8 - 18) \<noteq> 2 powi (25 - 18)"
  by code_simp

text \<open>
  Claim C4, amended. The exponent is \<open>m = 8\<close> for latitude and longitude and \<open>m = 21\<close> for
  altitude. On the encode side, an uncertainty that is \<open>2 powi (m - c)\<close> for a code \<open>c\<close> from 1
  to 34 is written by \<open>encodeLCIfield\<close> as the six bits \<open>c\<close> of its field; on the decode side,
  six bits that read as such a code \<open>c\<close> are decoded by \<open>decodeLCIfield\<close> to the uncertainty
  \<open>2 powi (m - c)\<close>. Both functions return when the array has room for the field.
\<close>

theorem uncertainty_code_exponent:
  assumes c: "1 \<le> c" "c \<le> MAX_LCI_UNCERTAINTY"
  shows
    "((nbyt + 18) * 2 < length str \<and> casts_defined g \<and> latitude_uncertainty g = 2 powi (8 - c) \<longrightarrow>
        (\<exists>str' g'. encodeLCIfield str nbyt g = Some (str', nbyt + 18, g')
           \<and> getbits str' ((nbyt + 2) * 8) 6 = Some c))
   \<and> ((nbyt + 18) * 2 < length str \<and> casts_defined g \<and> longitude_uncertainty g = 2 powi (8 - c) \<longrightarrow>
        (\<exists>str' g'. encodeLCIfield str nbyt g = Some (str', nbyt + 18, g')
           \<and> getbits str' ((nbyt + 2) * 8 + 40) 6 = Some c))
   \<and> ((nbyt + 18) * 2 < length str \<and> casts_defined g \<and> altitude_uncertainty g = 2 powi (21 - c) \<longrightarrow>
        (\<exists>str' g'. encodeLCIfield str nbyt g = Some (str', nbyt + 18, g')
           \<and> getbits str' ((nbyt + 2) * 8 + 84) 6 = Some c))
   \<and> ((indx + 128 + 7) div 8 * 2 \<le> length str \<and> getbits str indx 6 = Some c \<longrightarrow>
        (\<exists>g'. decodeLCIfield str indx g = Some (indx + 128, g')
           \<and> latitude_uncertainty g' = 2 powi (8 - c)))
   \<and> ((indx + 128 + 7) div 8 * 2 \<le> length str \<and> getbits str (indx + 40) 6 = Some c \<longrightarrow>
        (\<exists>g'. decodeLCIfield str indx g = Some (indx + 128, g')
           \<and> longitude_uncertainty g' = 2 powi (8 - c)))
   \<and> ((indx + 128 + 7) div 8 * 2 \<le> length str \<and> getbits str (indx + 84) 6 = Some c \<longrightarrow>
        (\<exists>g'. decodeLCIfield str indx g = Some (indx + 128, g')
           \<and> altitude_uncertainty g' = 2 powi (21 - c)))"
proof -
  from c have tb: "take_bit 6 c = c" by (simp add: take_bit_6_code)
  have enc: "\<exists>str' g'. encodeLCIfield str nbyt g = Some (str', nbyt + 18, g')
      \<and> getbits str' ((nbyt + 2) * 8) 6 = Some c"
    if "(nbyt + 18) * 2 < length str" "casts_defined g" "latitude_uncertainty g = 2 powi (8 - c)"
    using encodeLCIfield_codes [OF that(1,2)] that(3) chosen_code_powi [OF c, of 8] tb
    by auto
  have enc2: "\<exists>str' g'. encodeLCIfield str nbyt g = Some (str', nbyt + 18, g')
      \<and> getbits str' ((nbyt + 2) * 8 + 40) 6 = Some c"
    if "(nbyt + 18) * 2 < length str" "casts_defined g" "longitude_uncertainty g = 2 powi (8 - c)"
    using encodeLCIfield_codes [OF that(1,2)] that(3) chosen_code_powi [OF c, of 8] tb
    by auto
  have enc3: "\<exists>str' g'. encodeLCIfield str nbyt g = Some (str', nbyt + 18, g')
      \<and> getbits str' ((nbyt + 2) * 8 + 84) 6 = Some c"
    if "(nbyt + 18) * 2 < length str" "casts_defined g" "altitude_uncertainty g = 2 powi (21 - c)"
    using encodeLCIfield_codes [OF that(1,2)] that(3) chosen_code_powi [OF c, of 21] tb
    by auto
  have dec: "\<exists>g'. decodeLCIfield str indx g = Some (indx + 128, g')
      \<and> (getbits str indx 6 = Some c \<longrightarrow> latitude_uncertainty g' = 2 powi (8 - c))
      \<and> (getbits str (indx + 40) 6 = Some c \<longrightarrow> longitude_uncertainty g' = 2 powi (8 - c))
      \<and> (getbits str (indx + 84) 6 = Some c \<longrightarrow> altitude_uncertainty g' = 2 powi (21 - c))"
    if "(indx + 128 + 7) div 8 * 2 \<le> length str"
  proof -
    from decodeLCIfield_total [OF that] obtain LU Lat LoU Lon AT AU Alt D RA DSE Dep V where
      v: "getbits str indx 6 = Some LU" "getbits str (indx + 6) 34 = Some Lat"
        "getbits str (indx + 40) 6 = Some LoU" "getbits str (indx + 46) 34 = Some Lon"
        "getbits str (indx + 80) 4 = Some AT" "getbits str (indx + 84) 6 = Some AU"
        "getbits str (indx + 90) 30 = Some Alt" "getbits str (indx + 120) 3 = Some D"
        "getbits str (indx + 123) 1 = Some RA" "getbits str (indx + 124) 1 = Some DSE"
        "getbits str (indx + 125) 1 = Some Dep" "getbits str (indx + 126) 2 = Some V"
      by blast
    from decodeLCIfield_values [OF v, of g] c v(1,3,6) show ?thesis
      by (auto simp: decodebinarydot_def)
  qed
  from enc enc2 enc3 dec show ?thesis by blast
qed

lemma sample_codes:
  "getbits (c_str ''010008001052834d12efd2b08b9b4bf1cc2c0000410406000000000012060101'') 40 6 = Some 18"
  "getbits (c_str ''010008001052834d12efd2b08b9b4bf1cc2c0000410406000000000012060101'') (40 + 40) 6 = Some 18"
  "getbits (c_str ''010008001052834d12efd2b08b9b4bf1cc2c0000410406000000000012060101'') (40 + 84) 6 = Some 15"
  by code_simp+

theorem uncertainty_code_exponent_witness:
  "(\<exists>str' g'. encodeLCIfield (replicate 60 CHR ''0'' @ [NUL]) 3
        (initial\<lparr>latitude_uncertainty := 2 powi (8 - 18), longitude_uncertainty := 2 powi (8 - 18),
           altitude_uncertainty := 2 powi (21 - 18)\<rparr>) = Some (str', 3 + 18, g')
      \<and> getbits str' ((3 + 2) * 8) 6 = Some 18)
   \<and> (\<exists>str' g'. encodeLCIfield (replicate 60 CHR ''0'' @ [NUL]) 3
        (initial\<lparr>latitude_uncertainty := 2 powi (8 - 18), longitude_uncertainty := 2 powi (8 - 18),
           altitude_uncertainty := 2 powi (21 - 18)\<rparr>) = Some (str', 3 + 18, g')
      \<and> getbits str' ((3 + 2) * 8 + 40) 6 = Some 18)
   \<and> (\<exists>str' g'. encodeLCIfield (replicate 60 CHR ''0'' @ [NUL]) 3
        (initial\<lparr>latitude_uncertainty := 2 powi (8 - 18), longitude_uncertainty := 2 powi (8 - 18),
           altitude_uncertainty := 2 powi (21 - 18)\<rparr>) = Some (str', 3 + 18, g')
      \<and> getbits str' ((3 + 2) * 8 + 84) 6 = Some 18)
   \<and> getbits (c_str ''010008001052834d12efd2b08b9b4bf1cc2c0000410406000000000012060101'') 40 6 = Some 18
   \<and> (\<exists>g'. decodeLCIfield (c_str ''010008001052834d12efd2b08b9b4bf1cc2c0000410406000000000012060101'')
          40 initial = Some (40 + 128, g')
      \<and> latitude_uncertainty g' = 2 powi (8 - 18))
   \<and> (\<exists>g'. decodeLCIfield (c_str ''010008001052834d12efd2b08b9b4bf1cc2c0000410406000000000012060101'')
          40 initial = Some (40 + 128, g')
      \<and> longitude_uncertainty g' = 2 powi (8 - 18))
   \<and> (\<exists>g'. decodeLCIfield (c_str ''010008001052834d12efd2b08b9b4bf1cc2c0000410406000000000012060101'')
          40 initial = Some (40 + 128, g')
      \<and> altitude_uncertainty g' = 2 powi (21 - 15))"
proof -
  let ?g = "initial\<lparr>latitude_uncertainty := 2 powi (8 - 18), longitude_uncertainty := 2 powi (8 - 18),
           altitude_uncertainty := 2 powi (21 - 18)\<rparr>"
  let ?s = "c_str ''010008001052834d12efd2b08b9b4bf1cc2c0000410406000000000012060101''"
  have cd: "casts_defined ?g"
    by (simp add: casts_defined_def initial_def to_llong_def to_int_def c_round_def c_trunc_def)
  have room: "(3 + 18) * 2 < length (replicate 60 CHR ''0'' @ [NUL])"
    by simp
  have len: "(40 + 128 + 7) div 8 * 2 \<le> length ?s"
    by (simp add: c_str_def)
  have u: "latitude_uncertainty ?g = 2 powi (8 - 18)" "longitude_uncertainty ?g = 2 powi (8 - 18)"
    "altitude_uncertainty ?g = 2 powi (21 - 18)"
    by simp_all
  have c18: "1 \<le> (18::int)" "(18::int) \<le> MAX_LCI_UNCERTAINTY" and c15: "1 \<le> (15::int)" "(15::int) \<le> MAX_LCI_UNCERTAINTY"
    by simp_all
  note e = uncertainty_code_exponent
    [OF c18, where nbyt = 3 and str = "replicate 60 CHR ''0'' @ [NUL]" and g = ?g]
  note d = uncertainty_code_exponent [OF c18, where str = ?s and indx = 40 and g = initial]
  note d' = uncertainty_code_exponent [OF c15, where str = ?s and indx = 40 and g = initial]
  have e1: "\<exists>str' g'. encodeLCIfield (replicate 60 CHR ''0'' @ [NUL]) 3 ?g = Some (str', 3 + 18, g')
      \<and> getbits str' ((3 + 2) * 8) 6 = Some 18"
    by (rule e [THEN conjunct1, THEN mp]) (intro conjI room cd u)
  have e2: "\<exists>str' g'. encodeLCIfield (replicate 60 CHR ''0'' @ [NUL]) 3 ?g = Some (str', 3 + 18, g')
      \<and> getbits str' ((3 + 2) * 8 + 40) 6 = Some 18"
    by (rule e [THEN conjunct2, THEN conjunct1, THEN mp]) (intro conjI room cd u)
  have e3: "\<exists>str' g'. encodeLCIfield (replicate 60 CHR ''0'' @ [NUL]) 3 ?g = Some (str', 3 + 18, g')
      \<and> getbits str' ((3 + 2) * 8 + 84) 6 = Some 18"
    by (rule e [THEN conjunct2, THEN conjunct2, THEN conjunct1, THEN mp]) (intro conjI room cd u)
  have d1: "\<exists>g'. decodeLCIfield ?s 40 initial = Some (40 + 128, g')
      \<and> latitude_uncertainty g' = 2 powi (8 - 18)"
    by (rule d [THEN conjunct2, THEN conjunct2, THEN conjunct2, THEN conjunct1, THEN mp])
      (intro conjI len sample_codes)
  have d2: "\<exists>g'. decodeLCIfield ?s 40 initial = Some (40 + 128, g')
      \<and> longitude_uncertainty g' = 2 powi (8 - 18)"
    by (rule d [THEN conjunct2, THEN conjunct2, THEN conjunct2, THEN conjunct2, THEN conjunct1, THEN mp])
      (intro conjI len sample_codes)
  have d3: "\<exists>g'. decodeLCIfield ?s 40 initial = Some (40 + 128, g')
      \<and> altitude_uncertainty g' = 2 powi (21 - 15)"
    by (rule d' [THEN conjunct2, THEN conjunct2, THEN conjunct2, THEN conjunct2, THEN conjunct2, THEN mp])
      (intro conjI len sample_codes)
  from e1 e2 e3 sample_codes(1) d1 d2 d3 show ?thesis
    by (intro conjI)
qed

section \<open>The Colocated-BSSID subelement decoder\<close>

text \<open>
  Claim C9, on the code. The array \<open>BSSIDS\<close> has \<open>max_bssids + 1 = 11\<close> slots when the decoder
  runs, and \<open>decodeColocatedBSSID\<close> stores one address per six octets of the declared length
  without looking at the size of the array. A subelement of length \<open>1 + 6 * 12\<close> makes it
  write a twelfth slot, outside the array; one of length \<open>1 + 6 * 11\<close> is decoded to eleven
  addresses.
\<close>

theorem decode_twelve_BSSIDs:
  "decodeLCIstring (c_str (''0100080749'' @ ''00'' @ concat (replicate 12 ''aabbccddeeff''))) initial = None
   \<and> map_option bssid_index
       (decodeLCIstring (c_str (''0100080743'' @ ''00'' @ concat (replicate 11 ''aabbccddeeff''))) initial)
     = Some 11"
  by code_simp

theorem decode_twelve_BSSIDs_witness:
  "map_option bssid_index
     (decodeLCIstring (c_str (''0100080749'' @ ''00'' @ concat (replicate 12 ''aabbccddeeff''))) initial)
   \<noteq> Some 12"
  using decode_twelve_BSSIDs by simp

section \<open>The order of the subelements\<close>

text \<open>
  Claim C1, on the code. \<open>encodeLCIstring\<close> calls the encoder of the Colocated-BSSID
  subelement (ID 7) before that of the Usage subelement (ID 6): with one colocated BSSID the
  subelements of the encoded string have the IDs 4, 7, 6 in this order (the LCI subelement,
  which comes first when it is switched on, is switched off here).
\<close>

theorem subelements_not_ascending:
  "encoded (initial\<lparr>wantLCIflag := False, latitude := 1, BSSIDS := [''aabbccddeeff'']\<rparr>)
     = Some ''0100080406000000000000070701aabbccddeeff060101''
   \<and> subelement_IDs ''0100080406000000000000070701aabbccddeeff060101'' 3
     = [Z_CODE, COLOCATED_BSSID, USAGE_CODE]"
  by code_simp

theorem subelements_not_ascending_witness:
  "\<not> sorted (subelement_IDs ''0100080406000000000000070701aabbccddeeff060101'' 3)"
  using subelements_not_ascending by simp

section \<open>The MaxBSSIDIndicator octet\<close>




section \<open>Encoding and decoding again\<close>




end
